theory Spec2Isabelle
  imports Main "HOL-Library.Word" "HOL-Library.Sublist"
begin

section \<open>Strings\<close>

text \<open>
  A JavaScript string is a sequence of UTF-16 code units, and \<^verbatim>\<open>length\<close>,
  \<^verbatim>\<open>substring\<close> and \<^verbatim>\<open>trim\<close> count code units. Literals of the source are
  written \<open>str ''...''\<close>.
\<close>

type_synonym jschar = "16 word"
type_synonym jsstring = "jschar list"

definition str :: "string \<Rightarrow> jsstring" where
  "str cs = map of_char cs"

text \<open>
  ECMAScript \<^verbatim>\<open>WhiteSpace\<close> and \<^verbatim>\<open>LineTerminator\<close>: the code units that
  \<^verbatim>\<open>String.prototype.trim\<close> removes and that \<^verbatim>\<open>\s\<close> matches in a regular expression.
\<close>

definition isWhiteSpace :: "jschar \<Rightarrow> bool" where
  "isWhiteSpace c =
     (c = 0x09 \<or> c = 0x0A \<or> c = 0x0B \<or> c = 0x0C \<or> c = 0x0D \<or> c = 0x20 \<or> c = 0xA0
      \<or> c = 0x1680 \<or> (0x2000 \<le> c \<and> c \<le> 0x200A) \<or> c = 0x2028 \<or> c = 0x2029
      \<or> c = 0x202F \<or> c = 0x205F \<or> c = 0x3000 \<or> c = 0xFEFF)"

definition trimStart :: "jsstring \<Rightarrow> jsstring" where
  "trimStart s = dropWhile isWhiteSpace s"

definition trimEnd :: "jsstring \<Rightarrow> jsstring" where
  "trimEnd s = rev (dropWhile isWhiteSpace (rev s))"

definition trim :: "jsstring \<Rightarrow> jsstring" where
  "trim s = trimEnd (trimStart s)"

text \<open>\<^verbatim>\<open>a || b\<close> where \<^verbatim>\<open>a\<close> is a string or \<^verbatim>\<open>null\<close>: the empty string and \<^verbatim>\<open>null\<close> are falsy.\<close>

definition js_or :: "jsstring option \<Rightarrow> jsstring \<Rightarrow> jsstring" where
  "js_or a b = (case a of None \<Rightarrow> b | Some x \<Rightarrow> if x = [] then b else x)"

text \<open>\<^verbatim>\<open>String(n)\<close> for a non-negative integer, as the template literal of a note id uses it.\<close>

fun decimal :: "nat \<Rightarrow> jsstring" where
  "decimal n = (if n < 10 then [of_nat (48 + n)] else decimal (n div 10) @ [of_nat (48 + n mod 10)])"

declare decimal.simps [simp del]

section \<open>Data model\<close>

text \<open>\<^verbatim>\<open>interface Note\<close>. The field \<^verbatim>\<open>id\<close> is \<open>note_id\<close> here.\<close>

record Note =
  note_id :: jsstring
  title :: jsstring
  rawTranscription :: jsstring
  polishedNote :: jsstring
  elaboratedNote :: jsstring
  timestamp :: nat

text \<open>
  An editable element of the page: its content (\<^verbatim>\<open>textContent\<close> of the title,
  \<^verbatim>\<open>innerHTML\<close> of the two note regions), whether its class list holds
  \<^verbatim>\<open>placeholder-active\<close>, and its \<^verbatim>\<open>placeholder\<close> attribute (\<open>None\<close> when the attribute
  is absent). The page's HTML is not part of the sources, so the attribute is a field.
  \<^verbatim>\<open>textContent\<close> reads back as it was written. \<^verbatim>\<open>innerHTML\<close> does not: the browser
  parses the string assigned, and reading gives its serialisation of the result, so that
  \<^verbatim>\<open>a & b\<close> reads back as \<^verbatim>\<open>a &amp; b\<close>. The content of a region is what reading
  gives.
\<close>

record element =
  content :: jsstring
  placeholderActive :: bool
  placeholderAttr :: "jsstring option"

text \<open>
  A \<^verbatim>\<open>localStorage\<close> slot: no item under the key, an item that \<^verbatim>\<open>JSON.parse\<close> rejects,
  or the value an item parses to.
\<close>

datatype 'a slot = Absent | Garbled | Holds 'a

text \<open>The three remote calls, and the calls the program makes to the outside, in order.\<close>

datatype remote = Transcribe | Polish | Elaborate

datatype effect =
    GenerateContent remote
  | Settled remote
  | CommitInvoked
  | SetItemHistory
  | SetItemDraft nat

text \<open>The outcome of an awaited promise: rejected with an error message, or fulfilled.\<close>

datatype 'a outcome = Rejected jsstring | Fulfilled 'a

text \<open>
  The fields of \<^verbatim>\<open>VoiceNotesApp\<close> that the note lifecycle reads or writes, together with
  the browser state it acts on: the clock (\<^verbatim>\<open>Date.now()\<close>), the pending
  \<^verbatim>\<open>window.setTimeout\<close> callbacks of the auto-save (handle and due time), the two
  \<^verbatim>\<open>localStorage\<close> items, whether \<^verbatim>\<open>localStorage.setItem\<close> throws, and what the
  browser makes of a string assigned to \<^verbatim>\<open>innerHTML\<close> (\<open>serialise\<close>). \<open>trace\<close> is
  only ever appended to and never read: it records the remote calls, the history commits
  and the storage writes in the order they happen. The visualizer, the live timer, the
  history panel and the clipboard have no part in the lifecycle and are left out.
\<close>

record app =
  currentNote :: "Note option"
  notesHistory :: "Note list"
  editorTitle :: element
  polishedNoteEl :: element
  elaboratedNoteEl :: element
  recordingStatus :: jsstring
  mediaRecorder :: bool
  isRecording :: bool
  audioChunks :: "nat list"
  autoSaveTimeoutId :: "nat option"
  timers :: "(nat \<times> nat) list"
  nextTimerId :: nat
  now :: nat
  storedHistory :: "Note list slot"
  storedDraft :: "Note slot"
  storageFull :: bool
  serialise :: "jsstring \<Rightarrow> jsstring"
  trace :: "effect list"

definition MAX_HISTORY_ITEMS :: nat where
  "MAX_HISTORY_ITEMS = 20"

definition AUTO_SAVE_DELAY :: nat where
  "AUTO_SAVE_DELAY = 1500"

section \<open>History\<close>

text \<open>\<^verbatim>\<open>loadHistory\<close>: an absent item leaves the list alone, a parse error empties it.\<close>

definition loadHistory :: "app \<Rightarrow> app" where
  "loadHistory s =
     (case storedHistory s of
        Absent \<Rightarrow> s
      | Garbled \<Rightarrow> s\<lparr>notesHistory := []\<rparr>
      | Holds h \<Rightarrow> s\<lparr>notesHistory := h\<rparr>)"

text \<open>\<^verbatim>\<open>saveHistory\<close>: a failing \<^verbatim>\<open>setItem\<close> is logged and ignored.\<close>

definition saveHistory :: "app \<Rightarrow> app" where
  "saveHistory s =
     (let s1 = s\<lparr>trace := trace s @ [SetItemHistory]\<rparr>
      in if storageFull s1 then s1 else s1\<lparr>storedHistory := Holds (notesHistory s1)\<rparr>)"

definition updateCurrentNoteFromDOM :: "app \<Rightarrow> app" where
  "updateCurrentNoteFromDOM s =
     (case currentNote s of
        None \<Rightarrow> s
      | Some n \<Rightarrow>
          let titlePlaceholder = js_or (placeholderAttr (editorTitle s)) (str ''Untitled Note'');
              currentTitle = trim (content (editorTitle s));
              n1 = n\<lparr>title := (if currentTitle = titlePlaceholder \<or> currentTitle = [] then []
                                else currentTitle)\<rparr>;
              n2 = (if placeholderActive (polishedNoteEl s) then n1\<lparr>polishedNote := []\<rparr>
                    else n1\<lparr>polishedNote := content (polishedNoteEl s)\<rparr>);
              n3 = (if placeholderActive (elaboratedNoteEl s) then n2\<lparr>elaboratedNote := []\<rparr>
                    else n2\<lparr>elaboratedNote := content (elaboratedNoteEl s)\<rparr>)
          in s\<lparr>currentNote := Some n3\<rparr>)"

definition isEffectivelyEmpty :: "Note \<Rightarrow> bool" where
  "isEffectivelyEmpty n =
     (trim (rawTranscription n) = [] \<and> trim (polishedNote n) = []
      \<and> trim (elaboratedNote n) = [] \<and> trim (title n) = [])"

text \<open>\<^verbatim>\<open>Array.prototype.findIndex\<close>: the first index whose element satisfies the test, or -1.\<close>

fun findIndexFrom :: "('a \<Rightarrow> bool) \<Rightarrow> int \<Rightarrow> 'a list \<Rightarrow> int" where
  "findIndexFrom P i [] = - 1"
| "findIndexFrom P i (x # xs) = (if P x then i else findIndexFrom P (i + 1) xs)"

definition findIndex :: "('a \<Rightarrow> bool) \<Rightarrow> 'a list \<Rightarrow> int" where
  "findIndex P xs = findIndexFrom P 0 xs"

text \<open>\<^verbatim>\<open>xs.splice(i, 1)\<close> for an index \<open>i \<ge> 0\<close>: the list without its element at \<open>i\<close>.\<close>

definition splice1 :: "int \<Rightarrow> 'a list \<Rightarrow> 'a list" where
  "splice1 i xs = take (nat i) xs @ drop (nat i + 1) xs"

definition saveCurrentNoteToHistory :: "app \<Rightarrow> app" where
  "saveCurrentNoteToHistory s =
     (let s0 = s\<lparr>trace := trace s @ [CommitInvoked]\<rparr>
      in case currentNote s0 of
           None \<Rightarrow> s0
         | Some _ \<Rightarrow>
             (let s1 = updateCurrentNoteFromDOM s0
              in (case currentNote s1 of
                    None \<Rightarrow> s1
                  | Some n \<Rightarrow>
                      (if isEffectivelyEmpty n then s1
                       else
                         (let existingNoteIndex =
                                findIndex (\<lambda>m. note_id m = note_id n) (notesHistory s1);
                              noteToSave = n\<lparr>timestamp := now s1\<rparr>;
                              h1 = (if existingNoteIndex > - 1
                                    then splice1 existingNoteIndex (notesHistory s1)
                                    else notesHistory s1);
                              h2 = noteToSave # h1;
                              h3 = (if length h2 > MAX_HISTORY_ITEMS
                                    then take MAX_HISTORY_ITEMS h2 else h2)
                          in saveHistory (s1\<lparr>notesHistory := h3\<rparr>))))))"

section \<open>Draft and auto-save\<close>

text \<open>
  \<^verbatim>\<open>window.setTimeout\<close> hands out a fresh positive handle and queues the callback;
  \<^verbatim>\<open>clearTimeout\<close> drops the callback with that handle, if it is still queued. The only
  callback the lifecycle queues is the one of \<^verbatim>\<open>scheduleAutoSave\<close>.
\<close>

definition setTimeout :: "nat \<Rightarrow> app \<Rightarrow> app \<times> nat" where
  "setTimeout delay s =
     (let handle = nextTimerId s
      in (s\<lparr>timers := timers s @ [(handle, now s + delay)], nextTimerId := handle + 1\<rparr>,
          handle))"

definition clearTimeout :: "nat \<Rightarrow> app \<Rightarrow> app" where
  "clearTimeout handle s = s\<lparr>timers := filter (\<lambda>(i, due). i \<noteq> handle) (timers s)\<rparr>"

text \<open>A timer handle is a number: \<^verbatim>\<open>null\<close> and 0 are falsy.\<close>

definition truthyHandle :: "nat option \<Rightarrow> bool" where
  "truthyHandle h = (case h of None \<Rightarrow> False | Some i \<Rightarrow> i \<noteq> 0)"

definition saveDraft :: "bool \<Rightarrow> app \<Rightarrow> app" where
  "saveDraft immediate s =
     (let s1 = (if truthyHandle (autoSaveTimeoutId s) \<and> \<not> immediate
                then (case autoSaveTimeoutId s of
                        None \<Rightarrow> s
                      | Some i \<Rightarrow> (clearTimeout i s)\<lparr>autoSaveTimeoutId := None\<rparr>)
                else s)
      in case currentNote s1 of
           None \<Rightarrow> s1
         | Some _ \<Rightarrow>
             (let s2 = updateCurrentNoteFromDOM s1;
                  s3 = s2\<lparr>trace := trace s2 @ [SetItemDraft (now s2)]\<rparr>
              in (case currentNote s3 of
                    None \<Rightarrow> s3
                  | Some n \<Rightarrow> if storageFull s3 then s3 else s3\<lparr>storedDraft := Holds n\<rparr>)))"

definition scheduleAutoSave :: "app \<Rightarrow> app" where
  "scheduleAutoSave s =
     (let s1 = (if truthyHandle (autoSaveTimeoutId s)
                then (case autoSaveTimeoutId s of None \<Rightarrow> s | Some i \<Rightarrow> clearTimeout i s)
                else s);
          (s2, handle) = setTimeout AUTO_SAVE_DELAY s1
      in s2\<lparr>autoSaveTimeoutId := Some handle\<rparr>)"

text \<open>
  The block that \<^verbatim>\<open>loadNote\<close> and \<^verbatim>\<open>loadDraft\<close> both contain: the title and the two
  regions are filled from the current note, an empty field showing the placeholder. \<open>w\<close>
  is what writing makes of the string: nothing for the title, the serialisation for a
  region.
\<close>

definition showField ::
  "jsstring \<Rightarrow> jsstring \<Rightarrow> (jsstring \<Rightarrow> jsstring) \<Rightarrow> element \<Rightarrow> element" where
  "showField v fallback w el =
     (if v \<noteq> [] then el\<lparr>content := w v, placeholderActive := False\<rparr>
      else el\<lparr>content := w (js_or (placeholderAttr el) fallback), placeholderActive := True\<rparr>)"

definition populateFromCurrentNote :: "app \<Rightarrow> app" where
  "populateFromCurrentNote s =
     (case currentNote s of
        None \<Rightarrow> s
      | Some n \<Rightarrow>
          (let s1 = s\<lparr>editorTitle :=
                       showField (title n) (str ''Untitled Note'') (\<lambda>x. x) (editorTitle s)\<rparr>;
               s2 = s1\<lparr>elaboratedNoteEl :=
                        showField (elaboratedNote n) [] (serialise s1) (elaboratedNoteEl s1)\<rparr>
           in s2\<lparr>polishedNoteEl :=
                   showField (polishedNote n) [] (serialise s2) (polishedNoteEl s2)\<rparr>))"

text \<open>\<^verbatim>\<open>loadDraft\<close>, with the boolean it returns.\<close>

definition loadDraft :: "app \<Rightarrow> app \<times> bool" where
  "loadDraft s =
     (case storedDraft s of
        Absent \<Rightarrow> (s, False)
      | Garbled \<Rightarrow> (s, False)
      | Holds draftNote \<Rightarrow> (populateFromCurrentNote (s\<lparr>currentNote := Some draftNote\<rparr>), True))"

definition createNewNote :: "bool \<Rightarrow> app \<Rightarrow> app" where
  "createNewNote saveCurrent s =
     (let s1 = (if saveCurrent then saveCurrentNoteToHistory s else s);
          s2 = s1\<lparr>currentNote := Some \<lparr>note_id = str ''note_'' @ decimal (now s1), title = [],
                     rawTranscription = [], polishedNote = [], elaboratedNote = [],
                     timestamp = now s1\<rparr>\<rparr>;
          s3 = s2\<lparr>elaboratedNoteEl := (elaboratedNoteEl s2)
                     \<lparr>content := serialise s2 (js_or (placeholderAttr (elaboratedNoteEl s2)) []),
                      placeholderActive := True\<rparr>\<rparr>;
          s4 = s3\<lparr>polishedNoteEl := (polishedNoteEl s3)
                     \<lparr>content := serialise s3 (js_or (placeholderAttr (polishedNoteEl s3)) []),
                      placeholderActive := True\<rparr>\<rparr>;
          s5 = s4\<lparr>editorTitle := (editorTitle s4)
                     \<lparr>content := js_or (placeholderAttr (editorTitle s4)) (str ''Untitled Note''),
                      placeholderActive := True\<rparr>\<rparr>;
          s6 = s5\<lparr>recordingStatus := str ''Ready to record''\<rparr>;
          s7 = (if isRecording s6 then s6\<lparr>isRecording := False\<rparr> else s6)
      in saveDraft True s7)"

definition loadNote :: "jsstring \<Rightarrow> app \<Rightarrow> app" where
  "loadNote noteId s =
     (case find (\<lambda>m. note_id m = noteId) (notesHistory s) of
        None \<Rightarrow> s
      | Some noteToLoad \<Rightarrow>
          (let s1 = saveCurrentNoteToHistory s;
               s2 = s1\<lparr>currentNote := Some noteToLoad\<rparr>
           in saveDraft True (populateFromCurrentNote s2)))"

text \<open>
  The constructor, run at every page load: the field initialisers, a fresh window without
  timers, then \<^verbatim>\<open>loadHistory\<close>, \<^verbatim>\<open>loadDraft\<close> and, without a draft,
  \<^verbatim>\<open>createNewNote(false)\<close>. The argument is the browser before the load: storage and
  clock carry over.
\<close>

definition constructor :: "app \<Rightarrow> app" where
  "constructor b =
     (let s0 = b\<lparr>currentNote := None, notesHistory := [], mediaRecorder := False,
                 isRecording := False, audioChunks := [], autoSaveTimeoutId := None,
                 timers := [], nextTimerId := 1\<rparr>;
          s1 = loadHistory s0;
          (s2, loaded) = loadDraft s1;
          s3 = (if \<not> loaded then createNewNote False s2 else s2)
      in s3\<lparr>recordingStatus := str ''Ready to record''\<rparr>)"

text \<open>
  Time passes: the queued callbacks that come due within \<open>d\<close> milliseconds run in the
  order of their due times, each at its due time, unless an earlier one cleared it. The
  callback is \<^verbatim>\<open>() => { this.saveDraft(); }\<close>; it queues no timer itself.
\<close>

definition fire :: "nat \<times> nat \<Rightarrow> app \<Rightarrow> app" where
  "fire t s =
     (if t \<in> set (timers s)
      then saveDraft False (s\<lparr>now := max (now s) (snd t), timers := removeAll t (timers s)\<rparr>)
      else s)"

definition elapse :: "nat \<Rightarrow> app \<Rightarrow> app" where
  "elapse d s =
     (let due = sort_key snd (filter (\<lambda>(i, t). t \<le> now s + d) (timers s));
          s1 = fold fire due s
      in s1\<lparr>now := now s + d\<rparr>)"

section \<open>Recording\<close>

text \<open>\<^verbatim>\<open>String.prototype.includes\<close>.\<close>

fun includes_str :: "jsstring \<Rightarrow> jsstring \<Rightarrow> bool" where
  "includes_str [] pat = (pat = [])"
| "includes_str (c # cs) pat = (take (length pat) (c # cs) = pat \<or> includes_str cs pat)"

text \<open>
  \<^verbatim>\<open>startRecording\<close> up to its wait for \<^verbatim>\<open>getUserMedia\<close>, and from there on: \<open>None\<close>
  when a stream and a recorder were obtained and the recorder started; otherwise whether
  the recorder had been created when the error was thrown (it is when
  \<^verbatim>\<open>mediaRecorder.start()\<close> throws), and the name and message of the error.
\<close>

definition startRecording_begin :: "app \<Rightarrow> app" where
  "startRecording_begin s =
     s\<lparr>audioChunks := [], recordingStatus := str ''Requesting microphone access...''\<rparr>"

definition startRecording_resume ::
  "(bool \<times> jsstring \<times> jsstring) option \<Rightarrow> app \<Rightarrow> app" where
  "startRecording_resume r s =
     (case r of
        None \<Rightarrow> s\<lparr>mediaRecorder := True, isRecording := True\<rparr>
      | Some (created, errorName, errorMessage) \<Rightarrow>
          (let msg =
             (if errorName = str ''NotAllowedError'' \<or> errorName = str ''PermissionDeniedError''
              then str ''Microphone permission denied. Please check browser settings and reload page.''
              else if errorName = str ''NotFoundError''
                      \<or> (errorName = str ''DOMException''
                          \<and> includes_str errorMessage (str ''Requested device not found''))
              then str ''No microphone found. Please connect a microphone.''
              else if errorName = str ''NotReadableError'' \<or> errorName = str ''AbortError''
                      \<or> (errorName = str ''DOMException''
                          \<and> includes_str errorMessage (str ''Failed to allocate audiosource''))
              then str ''Cannot access microphone. It may be in use by another application.''
              else str ''Error: '' @ errorMessage)
           in s\<lparr>mediaRecorder := (created \<or> mediaRecorder s), recordingStatus := msg,
                isRecording := False\<rparr>))"

definition stopRecording :: "app \<Rightarrow> app" where
  "stopRecording s =
     (if mediaRecorder s \<and> isRecording s
      then s\<lparr>isRecording := False, recordingStatus := str ''Processing audio...''\<rparr>
      else s)"

definition toggleRecording :: "app \<Rightarrow> app" where
  "toggleRecording s = (if \<not> isRecording s then startRecording_begin s else stopRecording s)"

text \<open>\<^verbatim>\<open>mediaRecorder.ondataavailable\<close>, for a blob of the given size.\<close>

definition ondataavailable :: "nat \<Rightarrow> app \<Rightarrow> app" where
  "ondataavailable sz s = (if sz > 0 then s\<lparr>audioChunks := audioChunks s @ [sz]\<rparr> else s)"

section \<open>Transcription and enrichment\<close>

text \<open>
  An \<^verbatim>\<open>async\<close> method is one definition for each stretch between two waits:
  \<open>f_begin\<close> runs up to the first \<^verbatim>\<open>await\<close>, \<open>f_resume\<close> from the awaited outcome on.
  \<^verbatim>\<open>processAudio\<close> waits for the \<^verbatim>\<open>FileReader\<close>; its outcome is the base64 text, if any.
\<close>

definition getTranscription_begin :: "app \<Rightarrow> app" where
  "getTranscription_begin s =
     s\<lparr>recordingStatus := str ''Getting transcription...'',
       trace := trace s @ [GenerateContent Transcribe]\<rparr>"

definition processAudio_begin :: "nat \<Rightarrow> app \<Rightarrow> app \<times> bool" where
  "processAudio_begin sz s =
     (if sz = 0
      then (s\<lparr>recordingStatus := str ''No audio data captured. Please try again.''\<rparr>, False)
      else (s\<lparr>recordingStatus := str ''Converting audio...''\<rparr>, True))"

definition processAudio_resume :: "jsstring option outcome \<Rightarrow> app \<Rightarrow> app \<times> bool" where
  "processAudio_resume r s =
     (case r of
        Rejected _ \<Rightarrow>
          (s\<lparr>recordingStatus := str ''Error processing recording. Please try again.''\<rparr>, False)
      | Fulfilled base64Audio \<Rightarrow>
          (if base64Audio = None \<or> base64Audio = Some []
           then (s\<lparr>recordingStatus := str ''Error processing recording. Please try again.''\<rparr>,
                 False)
           else (getTranscription_begin s, True)))"

text \<open>
  \<^verbatim>\<open>mediaRecorder.onstop\<close>. The boolean tells whether \<^verbatim>\<open>processAudio\<close> was called and
  is waiting for the reader.
\<close>

definition onstop :: "app \<Rightarrow> app \<times> bool" where
  "onstop s =
     (if length (audioChunks s) > 0
      then processAudio_begin (sum_list (audioChunks s)) s
      else (s\<lparr>recordingStatus := str ''No audio data captured. Please try again.''\<rparr>, False))"

subsection \<open>The title taken from the polished text\<close>

text \<open>\<^verbatim>\<open>text.split('\n')\<close>.\<close>

fun split_nl :: "jsstring \<Rightarrow> jsstring list" where
  "split_nl [] = [[]]"
| "split_nl (c # cs) =
     (if c = 0x0A then [] # split_nl cs
      else (case split_nl cs of [] \<Rightarrow> [[c]] | l # ls \<Rightarrow> (c # l) # ls))"

definition isHash :: "jschar \<Rightarrow> bool" where
  "isHash c = (c = 0x23)"

text \<open>\<^verbatim>\<open>line.startsWith('#')\<close>.\<close>

definition startsWithHash :: "jsstring \<Rightarrow> bool" where
  "startsWithHash line = (case line of [] \<Rightarrow> False | c # _ \<Rightarrow> isHash c)"

text \<open>
  \<^verbatim>\<open>line.replace(/^#+\s+/, '')\<close>: the pattern matches when the hashes at the start are
  followed by white space, and then takes all of both; without a match the line is kept.
\<close>

definition replaceHeading :: "jsstring \<Rightarrow> jsstring" where
  "replaceHeading line =
     (let hashes = takeWhile isHash line;
          afterHashes = dropWhile isHash line;
          spaces = takeWhile isWhiteSpace afterHashes
      in if hashes \<noteq> [] \<and> spaces \<noteq> [] then dropWhile isWhiteSpace afterHashes else line)"

text \<open>The class \<^verbatim>\<open>[\*_\`#\->\s\[\]\(.\d)]\<close>.\<close>

definition isLeadDecoration :: "jschar \<Rightarrow> bool" where
  "isLeadDecoration c =
     (c = 0x2A \<or> c = 0x5F \<or> c = 0x60 \<or> c = 0x23 \<or> c = 0x2D \<or> c = 0x3E \<or> isWhiteSpace c
      \<or> c = 0x5B \<or> c = 0x5D \<or> c = 0x28 \<or> c = 0x2E \<or> (0x30 \<le> c \<and> c \<le> 0x39) \<or> c = 0x29)"

text \<open>The class \<^verbatim>\<open>[\*_\`#]\<close>.\<close>

definition isTrailDecoration :: "jschar \<Rightarrow> bool" where
  "isTrailDecoration c = (c = 0x2A \<or> c = 0x5F \<or> c = 0x60 \<or> c = 0x23)"

text \<open>
  \<^verbatim>\<open>line.replace(/^[...]+/, '')\<close>, then \<^verbatim>\<open>.replace(/[\*_\`#]+$/, '')\<close>, then
  \<^verbatim>\<open>.trim()\<close>.
\<close>

definition potentialTitle :: "jsstring \<Rightarrow> jsstring" where
  "potentialTitle line =
     (let p1 = dropWhile isLeadDecoration line;
          p2 = rev (dropWhile isTrailDecoration (rev p1))
      in trim p2)"

text \<open>The first loop over the lines: \<open>Some\<close> title when \<^verbatim>\<open>noteTitleSet\<close> ends up true.\<close>

fun headingLoop :: "jsstring list \<Rightarrow> jsstring option" where
  "headingLoop [] = None"
| "headingLoop (line # rest) =
     (if startsWithHash line
      then (let t = trim (replaceHeading line)
            in if t \<noteq> [] then Some t else headingLoop rest)
      else headingLoop rest)"

text \<open>The second loop, with \<^verbatim>\<open>maxLength = 60\<close>.\<close>

fun fallbackLoop :: "jsstring list \<Rightarrow> jsstring option" where
  "fallbackLoop [] = None"
| "fallbackLoop (line # rest) =
     (if length line > 0
      then (let p = potentialTitle line
            in if length p > 3
               then Some (take 60 p @ (if length p > 60 then str ''...'' else []))
               else fallbackLoop rest)
      else fallbackLoop rest)"

text \<open>Lines 680 to 731 of \<^verbatim>\<open>getPolishedNote\<close>, as a change of the title element.\<close>

definition inferTitle :: "jsstring \<Rightarrow> element \<Rightarrow> element" where
  "inferTitle polishedText el =
     (let lines = map trim (split_nl polishedText)
      in case headingLoop lines of
           Some t \<Rightarrow> el\<lparr>content := t, placeholderActive := False\<rparr>
         | None \<Rightarrow>
             (case fallbackLoop lines of
                Some t \<Rightarrow> el\<lparr>content := t, placeholderActive := False\<rparr>
              | None \<Rightarrow>
                  (let currentEditorText = trim (content el);
                       placeholderText = js_or (placeholderAttr el) (str ''Untitled Note'')
                   in if currentEditorText = [] \<or> currentEditorText = placeholderText
                      then el\<lparr>content := placeholderText, placeholderActive := True\<rparr>
                      else el)))"

subsection \<open>The two enrichment calls\<close>

text \<open>
  Both methods return at once, without a request, unless there is a current note with a
  non-blank raw transcription. \<open>marked\<close> is \<^verbatim>\<open>marked.parse\<close>; \<^verbatim>\<open>response.text\<close> is a
  string or undefined.
\<close>

definition enrichable :: "app \<Rightarrow> bool" where
  "enrichable s = (case currentNote s of None \<Rightarrow> False | Some n \<Rightarrow> trim (rawTranscription n) \<noteq> [])"

definition getPolishedNote_begin :: "app \<Rightarrow> app" where
  "getPolishedNote_begin s =
     (if \<not> enrichable s
      then s\<lparr>polishedNoteEl := (polishedNoteEl s)
                \<lparr>content := serialise s (js_or (placeholderAttr (polishedNoteEl s)) []),
                 placeholderActive := True\<rparr>,
             trace := trace s @ [Settled Polish]\<rparr>
      else s\<lparr>recordingStatus := str ''Polishing note...'',
             trace := trace s @ [GenerateContent Polish]\<rparr>)"

definition getPolishedNote_resume ::
  "(jsstring \<Rightarrow> jsstring) \<Rightarrow> jsstring option outcome \<Rightarrow> app \<Rightarrow> app" where
  "getPolishedNote_resume marked r s =
     (let s' =
        (case r of
           Rejected msg \<Rightarrow>
             s\<lparr>polishedNoteEl := (polishedNoteEl s)
                  \<lparr>content := serialise s (str ''<p><em>Error during polishing: '' @ msg @ str ''</em></p>'')\<rparr>\<rparr>
         | Fulfilled None \<Rightarrow>
             s\<lparr>polishedNoteEl := (polishedNoteEl s)
                  \<lparr>content := serialise s (str ''<p><em>Polishing returned empty. Raw transcription is available.</em></p>'')\<rparr>\<rparr>
         | Fulfilled (Some polishedText) \<Rightarrow>
             (if polishedText = []
              then s\<lparr>polishedNoteEl := (polishedNoteEl s)
                  \<lparr>content := serialise s (str ''<p><em>Polishing returned empty. Raw transcription is available.</em></p>'')\<rparr>\<rparr>
              else
                (let htmlContent = marked polishedText;
                     s1 = s\<lparr>polishedNoteEl := (polishedNoteEl s)\<lparr>content := serialise s htmlContent\<rparr>\<rparr>;
                     s2 = (if trim polishedText \<noteq> []
                           then s1\<lparr>polishedNoteEl := (polishedNoteEl s1)\<lparr>placeholderActive := False\<rparr>\<rparr>
                           else s1\<lparr>polishedNoteEl := (polishedNoteEl s1)
                                  \<lparr>content := serialise s1 (js_or (placeholderAttr (polishedNoteEl s1)) []),
                                   placeholderActive := True\<rparr>\<rparr>);
                     s3 = s2\<lparr>editorTitle := inferTitle polishedText (editorTitle s2)\<rparr>;
                     s4 = (case currentNote s3 of
                             None \<Rightarrow> s3
                           | Some n \<Rightarrow> s3\<lparr>currentNote := Some (n\<lparr>polishedNote := htmlContent\<rparr>)\<rparr>)
                 in scheduleAutoSave s4)))
      in s'\<lparr>trace := trace s' @ [Settled Polish]\<rparr>)"

definition getElaboratedNote_begin :: "app \<Rightarrow> app" where
  "getElaboratedNote_begin s =
     (if \<not> enrichable s
      then s\<lparr>elaboratedNoteEl := (elaboratedNoteEl s)
                \<lparr>content := serialise s (js_or (placeholderAttr (elaboratedNoteEl s)) []),
                 placeholderActive := True\<rparr>,
             trace := trace s @ [Settled Elaborate]\<rparr>
      else s\<lparr>recordingStatus := str ''Elaborating note...'',
             trace := trace s @ [GenerateContent Elaborate]\<rparr>)"

definition getElaboratedNote_resume ::
  "(jsstring \<Rightarrow> jsstring) \<Rightarrow> jsstring option outcome \<Rightarrow> app \<Rightarrow> app" where
  "getElaboratedNote_resume marked r s =
     (let s' =
        (case r of
           Rejected msg \<Rightarrow>
             s\<lparr>elaboratedNoteEl := (elaboratedNoteEl s)
                  \<lparr>content := serialise s (str ''<p><em>Error during elaboration: '' @ msg @ str ''</em></p>'')\<rparr>\<rparr>
         | Fulfilled None \<Rightarrow>
             s\<lparr>elaboratedNoteEl := (elaboratedNoteEl s)
                  \<lparr>content := serialise s (str ''<p><em>Elaboration returned empty.</em></p>'')\<rparr>\<rparr>
         | Fulfilled (Some elaboratedText) \<Rightarrow>
             (if elaboratedText = []
              then s\<lparr>elaboratedNoteEl := (elaboratedNoteEl s)
                  \<lparr>content := serialise s (str ''<p><em>Elaboration returned empty.</em></p>'')\<rparr>\<rparr>
              else
                (let htmlContent = marked elaboratedText;
                     s1 = s\<lparr>elaboratedNoteEl := (elaboratedNoteEl s)\<lparr>content := serialise s htmlContent\<rparr>\<rparr>;
                     s2 = (if trim elaboratedText \<noteq> []
                           then s1\<lparr>elaboratedNoteEl := (elaboratedNoteEl s1)\<lparr>placeholderActive := False\<rparr>\<rparr>
                           else s1\<lparr>elaboratedNoteEl := (elaboratedNoteEl s1)
                                  \<lparr>content := serialise s1 (js_or (placeholderAttr (elaboratedNoteEl s1)) []),
                                   placeholderActive := True\<rparr>\<rparr>);
                     s3 = (case currentNote s2 of
                             None \<Rightarrow> s2
                           | Some n \<Rightarrow> s2\<lparr>currentNote := Some (n\<lparr>elaboratedNote := htmlContent\<rparr>)\<rparr>)
                 in scheduleAutoSave s3)))
      in s'\<lparr>trace := trace s' @ [Settled Elaborate]\<rparr>)"

subsection \<open>\<^verbatim>\<open>getTranscription\<close>\<close>

text \<open>
  What follows \<^verbatim>\<open>await Promise.all([...])\<close>: the status line, then the \<^verbatim>\<open>finally\<close>
  block.
\<close>

definition getTranscription_finish :: "app \<Rightarrow> app" where
  "getTranscription_finish s =
     saveCurrentNoteToHistory (s\<lparr>recordingStatus := str ''Notes complete. Ready for next recording.''\<rparr>)"

text \<open>
  From the transcription response up to the wait for the two enrichment calls, which both
  start here. The boolean tells whether the method is waiting for them; otherwise it has
  run to its end, the \<^verbatim>\<open>finally\<close> block included.
\<close>

definition getTranscription_resume :: "jsstring option outcome \<Rightarrow> app \<Rightarrow> app \<times> bool" where
  "getTranscription_resume r s =
     (case r of
        Rejected msg \<Rightarrow>
          (saveCurrentNoteToHistory
             (s\<lparr>recordingStatus := str ''Error getting transcription. Please try again.'',
                polishedNoteEl := (polishedNoteEl s)
                  \<lparr>content := serialise s (str ''<p><em>Error during transcription: '' @ msg @ str ''</em></p>'')\<rparr>\<rparr>),
           False)
      | Fulfilled transcriptionText \<Rightarrow>
          (case (transcriptionText, currentNote s) of
             (Some text, Some n) \<Rightarrow>
               (if text = []
                then (saveCurrentNoteToHistory
                        (s\<lparr>recordingStatus := str ''Transcription failed or returned empty.'',
                           polishedNoteEl := (polishedNoteEl s)
                             \<lparr>content := serialise s (str ''<p><em>Could not transcribe audio. Please try again.</em></p>'')\<rparr>\<rparr>),
                      False)
                else
                  (let existingTranscription = rawTranscription n;
                       newFullTranscription = trim (existingTranscription @ str '' '' @ text);
                       s1 = s\<lparr>currentNote := Some (n\<lparr>rawTranscription := newFullTranscription\<rparr>)\<rparr>;
                       s2 = s1\<lparr>recordingStatus := str ''Transcription complete. Generating notes...''\<rparr>;
                       s3 = getElaboratedNote_begin (getPolishedNote_begin s2)
                   in if enrichable s2 then (s3, True) else (getTranscription_finish s3, False)))
           | _ \<Rightarrow>
               (saveCurrentNoteToHistory
                  (s\<lparr>recordingStatus := str ''Transcription failed or returned empty.'',
                     polishedNoteEl := (polishedNoteEl s)
                       \<lparr>content := serialise s (str ''<p><em>Could not transcribe audio. Please try again.</em></p>'')\<rparr>\<rparr>),
                False)))"

section \<open>Events\<close>

text \<open>
  What can happen to the page. An input event comes with the new content of the edited
  element; the focus and blur handlers of the \<^verbatim>\<open>DOMContentLoaded\<close> block rewrite an
  element's content and placeholder class. The responses of the awaited calls are events of
  their own, so that anything may happen between a call and its response.
\<close>

datatype target = Title | PolishedRegion | ElaboratedRegion

datatype event =
    PageLoad
  | ClickNew
  | ClickHistoryItem jsstring
  | Input target jsstring
  | FocusBlur target jsstring bool
  | BeforeUnload
  | Elapse nat
  | Quota bool
  | ClickRecord
  | UserMedia "(bool \<times> jsstring \<times> jsstring) option"
  | DataAvailable nat
  | RecorderStop
  | ReaderDone "jsstring option outcome"
  | TranscriptionDone "jsstring option outcome"
  | PolishDone "jsstring option outcome"
  | ElaborateDone "jsstring option outcome"
  | EnrichmentDone

definition updateElement :: "target \<Rightarrow> (element \<Rightarrow> element) \<Rightarrow> app \<Rightarrow> app" where
  "updateElement tg f s =
     (case tg of
        Title \<Rightarrow> s\<lparr>editorTitle := f (editorTitle s)\<rparr>
      | PolishedRegion \<Rightarrow> s\<lparr>polishedNoteEl := f (polishedNoteEl s)\<rparr>
      | ElaboratedRegion \<Rightarrow> s\<lparr>elaboratedNoteEl := f (elaboratedNoteEl s)\<rparr>)"

text \<open>The browser changes the element, then the \<^verbatim>\<open>input\<close> listener runs.\<close>

definition onInput :: "target \<Rightarrow> jsstring \<Rightarrow> app \<Rightarrow> app" where
  "onInput tg v s = scheduleAutoSave (updateElement tg (\<lambda>el. el\<lparr>content := v\<rparr>) s)"

fun step :: "(jsstring \<Rightarrow> jsstring) \<Rightarrow> event \<Rightarrow> app \<Rightarrow> app" where
  "step marked PageLoad s = constructor s"
| "step marked ClickNew s = createNewNote True s"
| "step marked (ClickHistoryItem noteId) s = loadNote noteId s"
| "step marked (Input tg v) s = onInput tg v s"
| "step marked (FocusBlur tg v active) s =
     updateElement tg (\<lambda>el. el\<lparr>content := v, placeholderActive := active\<rparr>) s"
| "step marked BeforeUnload s = saveDraft True s"
| "step marked (Elapse d) s = elapse d s"
| "step marked (Quota full) s = s\<lparr>storageFull := full\<rparr>"
| "step marked ClickRecord s = toggleRecording s"
| "step marked (UserMedia r) s = startRecording_resume r s"
| "step marked (DataAvailable sz) s = ondataavailable sz s"
| "step marked RecorderStop s = fst (onstop s)"
| "step marked (ReaderDone r) s = fst (processAudio_resume r s)"
| "step marked (TranscriptionDone r) s = fst (getTranscription_resume r s)"
| "step marked (PolishDone r) s = getPolishedNote_resume marked r s"
| "step marked (ElaborateDone r) s = getElaboratedNote_resume marked r s"
| "step marked EnrichmentDone s = getTranscription_finish s"

text \<open>
  The states of the application: it is first opened in a browser that holds nothing under
  its two storage keys, and then any event may follow any other.
\<close>

inductive reachable :: "(jsstring \<Rightarrow> jsstring) \<Rightarrow> app \<Rightarrow> bool" for marked where
  opened: "storedHistory b = Absent \<Longrightarrow> storedDraft b = Absent \<Longrightarrow> reachable marked (constructor b)"
| after: "reachable marked s \<Longrightarrow> reachable marked (step marked e s)"

section \<open>Notions used in the statements\<close>

text \<open>
  What a commit makes of the history \<open>h\<close>: the note, stamped with the time, goes to the
  front, the first entry with its id goes away, and the list is cut to the maximum.
\<close>

definition committed :: "Note \<Rightarrow> nat \<Rightarrow> Note list \<Rightarrow> Note list" where
  "committed n t h =
     take MAX_HISTORY_ITEMS
       (n\<lparr>timestamp := t\<rparr> #
        (if \<exists>m\<in>set h. note_id m = note_id n
         then takeWhile (\<lambda>m. note_id m \<noteq> note_id n) h
              @ tl (dropWhile (\<lambda>m. note_id m \<noteq> note_id n) h)
         else h))"

text \<open>
  A well-formed history: within the maximum, no id twice, no effectively empty note. The
  invariant asks it of the list in memory and of the list in storage.
\<close>

definition historyOk :: "Note list \<Rightarrow> bool" where
  "historyOk h =
     (length h \<le> MAX_HISTORY_ITEMS \<and> distinct (map note_id h)
      \<and> (\<forall>n\<in>set h. \<not> isEffectivelyEmpty n))"

definition historyInv :: "app \<Rightarrow> bool" where
  "historyInv s =
     (historyOk (notesHistory s)
      \<and> (case storedHistory s of Holds h \<Rightarrow> historyOk h | _ \<Rightarrow> True))"

text \<open>
  A browser that has never opened the page, at time 0, with a page whose three editable
  elements carry a placeholder attribute. Its serialisation changes no string, as is the
  case in a browser for the strings of the examples below: plain text, and a paragraph
  with an emphasis around plain text.
\<close>

definition freshBrowser :: app where
  "freshBrowser =
     \<lparr>currentNote = None, notesHistory = [],
      editorTitle = \<lparr>content = [], placeholderActive = False,
                      placeholderAttr = Some (str ''Untitled Note'')\<rparr>,
      polishedNoteEl = \<lparr>content = [], placeholderActive = False,
                         placeholderAttr = Some (str ''Polished'')\<rparr>,
      elaboratedNoteEl = \<lparr>content = [], placeholderActive = False,
                           placeholderAttr = Some (str ''Elaborated'')\<rparr>,
      recordingStatus = [], mediaRecorder = False, isRecording = False, audioChunks = [],
      autoSaveTimeoutId = None, timers = [], nextTimerId = 1, now = 0,
      storedHistory = Absent, storedDraft = Absent, storageFull = False,
      serialise = (\<lambda>x. x), trace = []\<rparr>"

text \<open>A sequence of events, one after the other.\<close>

fun run :: "(jsstring \<Rightarrow> jsstring) \<Rightarrow> event list \<Rightarrow> app \<Rightarrow> app" where
  "run marked [] s = s"
| "run marked (e # es) s = run marked es (step marked e s)"






text \<open>
  A short session: two notes are written, five milliseconds apart, and left by the new-note
  button; then the first one is opened again from the history panel and its title edited.
\<close>

definition session :: "event list" where
  "session =
     [Input Title (str ''A''), Elapse 5, ClickNew, Input Title (str ''B''), Elapse 5, ClickNew,
      ClickHistoryItem (str ''note_0''), Input Title (str ''A2'')]"

text \<open>
  What the auto-save depends on, and its invariant: there is a current note; a queued
  callback is the one whose handle \<^verbatim>\<open>autoSaveTimeoutId\<close> holds, and is due later than
  now; at most one is queued; handles are positive and below the next handle.
\<close>

definition timerState :: "app \<Rightarrow> (nat \<times> nat) list \<times> nat option \<times> nat \<times> nat \<times> bool" where
  "timerState s = (timers s, autoSaveTimeoutId s, nextTimerId s, now s, currentNote s = None)"

definition timerInv :: "app \<Rightarrow> bool" where
  "timerInv s =
     (currentNote s \<noteq> None
      \<and> (\<forall>t\<in>set (timers s). autoSaveTimeoutId s = Some (fst t) \<and> now s < snd t)
      \<and> length (timers s) \<le> 1
      \<and> 0 < nextTimerId s
      \<and> (\<forall>h. autoSaveTimeoutId s = Some h \<longrightarrow> 0 < h \<and> h < nextTimerId s))"

text \<open>
  A recording that captures nothing: record, the microphone is granted, stop, and the
  recorder delivers an empty blob.
\<close>

definition recording :: "event list" where
  "recording = [ClickRecord, UserMedia None, ClickRecord, DataAvailable 0]"

text \<open>At most 60 code units, with three dots after them when something was cut.\<close>

definition truncate60 :: "jsstring \<Rightarrow> jsstring" where
  "truncate60 p = take 60 p @ (if 60 < length p then str ''...'' else [])"

text \<open>
  The rule for the title. Where a line starts with a hash, the first such line decides:
  when white space follows its hashes, the title is what follows them, trimmed. The rule
  says nothing of a first such line whose hashes are not followed by white space. Without
  a line that starts with a hash, the first line decides whose text, with the leading
  decoration and the trailing emphasis marks taken off and trimmed, is longer than 3.
  Without one of those either, a title that is blank or is the placeholder becomes the
  placeholder, and any other title stays.
\<close>

definition titleRule :: "jsstring \<Rightarrow> element \<Rightarrow> element option" where
  "titleRule polishedText el =
     (let lines = map trim (split_nl polishedText)
      in case find startsWithHash lines of
           Some line \<Rightarrow>
             (let rest = dropWhile isHash line
              in if rest \<noteq> [] \<and> isWhiteSpace (hd rest)
                 then Some (el\<lparr>content := trim rest, placeholderActive := False\<rparr>)
                 else None)
         | None \<Rightarrow>
             Some (case find (\<lambda>line. 3 < length (potentialTitle line)) lines of
                     Some line \<Rightarrow> el\<lparr>content := truncate60 (potentialTitle line),
                                     placeholderActive := False\<rparr>
                   | None \<Rightarrow>
                       (if trim (content el) = []
                           \<or> trim (content el) = js_or (placeholderAttr el) (str ''Untitled Note'')
                        then el\<lparr>content := js_or (placeholderAttr el) (str ''Untitled Note''),
                                placeholderActive := True\<rparr>
                        else el)))"

text \<open>
  The rule as claim C6 words it: the heading markers at the start of the first line that
  starts with a hash are stripped; otherwise the first non-empty line counts whose text
  after stripping the leading decoration is longer than 3; otherwise the title is the
  placeholder.
\<close>

definition claimedTitle :: "jsstring \<Rightarrow> element \<Rightarrow> element" where
  "claimedTitle polishedText el =
     (let lines = map trim (split_nl polishedText)
      in case find startsWithHash lines of
           Some line \<Rightarrow> el\<lparr>content := trim (dropWhile isHash line), placeholderActive := False\<rparr>
         | None \<Rightarrow>
             (case find (\<lambda>line. line \<noteq> [] \<and> 3 < length (dropWhile isLeadDecoration line)) lines of
                Some line \<Rightarrow> el\<lparr>content := truncate60 (dropWhile isLeadDecoration line),
                                placeholderActive := False\<rparr>
              | None \<Rightarrow> el\<lparr>content := js_or (placeholderAttr el) (str ''Untitled Note''),
                           placeholderActive := True\<rparr>))"

section \<open>The history after a commit\<close>

text \<open>
  \<^verbatim>\<open>findIndex\<close> followed by \<^verbatim>\<open>splice\<close> removes the first entry with the id; where ids
  are distinct that is a filter.
\<close>

lemma findIndexFrom_none: "\<forall>x\<in>set xs. \<not> P x \<Longrightarrow> findIndexFrom P i xs = - 1"
  by (induction xs arbitrary: i) auto

lemma findIndexFrom_some:
  "\<exists>x\<in>set xs. P x \<Longrightarrow> findIndexFrom P i xs = i + int (length (takeWhile (\<lambda>x. \<not> P x) xs))"
proof (induction xs arbitrary: i)
  case Nil
  then show ?case by simp
next
  case (Cons a xs)
  show ?case
  proof (cases "P a")
    case True
    then show ?thesis by simp
  next
    case False
    with Cons.prems have "\<exists>x\<in>set xs. P x" by auto
    from Cons.IH [OF this, of "i + 1"] False show ?thesis by simp
  qed
qed

lemma findIndex_gt: "(findIndex P xs > - 1) = (\<exists>x\<in>set xs. P x)"
proof (cases "\<exists>x\<in>set xs. P x")
  case True
  then show ?thesis by (simp add: findIndex_def findIndexFrom_some)
next
  case False
  then show ?thesis by (simp add: findIndex_def findIndexFrom_none)
qed

lemma splice1_findIndex:
  assumes "\<exists>x\<in>set xs. P x"
  shows "splice1 (findIndex P xs) xs = takeWhile (\<lambda>x. \<not> P x) xs @ tl (dropWhile (\<lambda>x. \<not> P x) xs)"
proof -
  let ?k = "length (takeWhile (\<lambda>x. \<not> P x) xs)"
  have "findIndex P xs = int ?k" using findIndexFrom_some [OF assms, of 0] by (simp add: findIndex_def)
  then have "splice1 (findIndex P xs) xs = take ?k xs @ drop (Suc ?k) xs"
    by (simp add: splice1_def)
  also have "take ?k xs = takeWhile (\<lambda>x. \<not> P x) xs"
    by (rule takeWhile_eq_take [symmetric])
  also have "drop (Suc ?k) xs = tl (drop ?k xs)"
    by (simp add: drop_Suc tl_drop)
  also have "drop ?k xs = dropWhile (\<lambda>x. \<not> P x) xs"
    by (rule dropWhile_eq_drop [symmetric])
  finally show ?thesis .
qed

lemma remove_first_distinct:
  "distinct (map f xs) \<Longrightarrow> \<exists>x\<in>set xs. f x = k \<Longrightarrow>
   takeWhile (\<lambda>x. f x \<noteq> k) xs @ tl (dropWhile (\<lambda>x. f x \<noteq> k) xs) = filter (\<lambda>x. f x \<noteq> k) xs"
proof (induction xs)
  case Nil
  then show ?case by simp
next
  case (Cons a xs)
  show ?case
  proof (cases "f a = k")
    case True
    with Cons.prems have "\<forall>x\<in>set xs. f x \<noteq> k" by (auto simp: image_iff)
    then have "filter (\<lambda>x. f x \<noteq> k) xs = xs" by (simp add: filter_id_conv)
    with True show ?thesis by simp
  next
    case False
    with Cons show ?thesis by auto
  qed
qed

text \<open>The refresh from the page changes the current note and nothing else.\<close>

lemma update_frame [simp]:
  "notesHistory (updateCurrentNoteFromDOM s) = notesHistory s"
  "storedHistory (updateCurrentNoteFromDOM s) = storedHistory s"
  "storedDraft (updateCurrentNoteFromDOM s) = storedDraft s"
  "now (updateCurrentNoteFromDOM s) = now s"
  "trace (updateCurrentNoteFromDOM s) = trace s"
  "storageFull (updateCurrentNoteFromDOM s) = storageFull s"
  "timers (updateCurrentNoteFromDOM s) = timers s"
  "autoSaveTimeoutId (updateCurrentNoteFromDOM s) = autoSaveTimeoutId s"
  "editorTitle (updateCurrentNoteFromDOM s) = editorTitle s"
  "polishedNoteEl (updateCurrentNoteFromDOM s) = polishedNoteEl s"
  "elaboratedNoteEl (updateCurrentNoteFromDOM s) = elaboratedNoteEl s"
  "nextTimerId (updateCurrentNoteFromDOM s) = nextTimerId s"
  "recordingStatus (updateCurrentNoteFromDOM s) = recordingStatus s"
  "mediaRecorder (updateCurrentNoteFromDOM s) = mediaRecorder s"
  "isRecording (updateCurrentNoteFromDOM s) = isRecording s"
  "audioChunks (updateCurrentNoteFromDOM s) = audioChunks s"
  "serialise (updateCurrentNoteFromDOM s) = serialise s"
  by (simp_all add: updateCurrentNoteFromDOM_def Let_def split: option.splits)

lemma update_current_None [simp]:
  "(currentNote (updateCurrentNoteFromDOM s) = None) = (currentNote s = None)"
  by (simp add: updateCurrentNoteFromDOM_def Let_def split: option.splits)

lemma update_trace_indep [simp]:
  "currentNote (updateCurrentNoteFromDOM (s\<lparr>trace := t\<rparr>)) = currentNote (updateCurrentNoteFromDOM s)"
  by (simp add: updateCurrentNoteFromDOM_def Let_def split: option.splits)

lemma commit_None:
  "currentNote s = None \<Longrightarrow> saveCurrentNoteToHistory s = s\<lparr>trace := trace s @ [CommitInvoked]\<rparr>"
  by (simp add: saveCurrentNoteToHistory_def Let_def)

lemma update_None: "currentNote s = None \<Longrightarrow> updateCurrentNoteFromDOM s = s"
  by (simp add: updateCurrentNoteFromDOM_def)

lemma commit_empty:
  "currentNote (updateCurrentNoteFromDOM s) = Some n \<Longrightarrow> isEffectivelyEmpty n \<Longrightarrow>
   saveCurrentNoteToHistory s = updateCurrentNoteFromDOM (s\<lparr>trace := trace s @ [CommitInvoked]\<rparr>)"
  by (simp add: saveCurrentNoteToHistory_def Let_def update_None split: option.splits)

lemma commit_history:
  assumes "currentNote (updateCurrentNoteFromDOM s) = Some n" and "\<not> isEffectivelyEmpty n"
  shows "notesHistory (saveCurrentNoteToHistory s) = committed n (now s) (notesHistory s)"
    and "storedHistory (saveCurrentNoteToHistory s) =
           (if storageFull s then storedHistory s else Holds (committed n (now s) (notesHistory s)))"
proof -
  let ?P = "\<lambda>m. note_id m = note_id n"
  let ?h = "notesHistory s"
  have sp: "(\<exists>m\<in>set ?h. ?P m) \<Longrightarrow> splice1 (findIndex ?P ?h) ?h =
        takeWhile (\<lambda>m. note_id m \<noteq> note_id n) ?h @ tl (dropWhile (\<lambda>m. note_id m \<noteq> note_id n) ?h)"
    using splice1_findIndex [of ?h ?P] by simp
  have tk: "\<And>xs::Note list. (if length xs > MAX_HISTORY_ITEMS then take MAX_HISTORY_ITEMS xs else xs) = take MAX_HISTORY_ITEMS xs"
    by simp
  from assms have cur: "currentNote s \<noteq> None" by (auto simp: update_current_None [symmetric] simp del: update_current_None)
  show "notesHistory (saveCurrentNoteToHistory s) = committed n (now s) (notesHistory s)"
    using assms cur sp
    by (auto simp add: saveCurrentNoteToHistory_def Let_def committed_def findIndex_gt saveHistory_def tk
          split: option.splits)
  show "storedHistory (saveCurrentNoteToHistory s) =
           (if storageFull s then storedHistory s else Holds (committed n (now s) (notesHistory s)))"
    using assms cur sp
    by (auto simp add: saveCurrentNoteToHistory_def Let_def committed_def findIndex_gt saveHistory_def tk
          split: option.splits)
qed

lemma commit_elements [simp]:
  "polishedNoteEl (saveCurrentNoteToHistory s) = polishedNoteEl s"
  "elaboratedNoteEl (saveCurrentNoteToHistory s) = elaboratedNoteEl s"
  "editorTitle (saveCurrentNoteToHistory s) = editorTitle s"
  by (auto simp add: saveCurrentNoteToHistory_def Let_def saveHistory_def split: option.splits)

text \<open>The invariant of the history holds through every event.\<close>

lemma inv_frame: "notesHistory s' = notesHistory s \<Longrightarrow> storedHistory s' = storedHistory s \<Longrightarrow> historyInv s' = historyInv s"
  by (simp add: historyInv_def)

lemma isEffectivelyEmpty_timestamp [simp]: "isEffectivelyEmpty (n\<lparr>timestamp := t\<rparr>) = isEffectivelyEmpty n"
  by (simp add: isEffectivelyEmpty_def)

lemma committed_distinct:
  assumes "distinct (map note_id h)"
  shows "committed n t h = take MAX_HISTORY_ITEMS (n\<lparr>timestamp := t\<rparr> # filter (\<lambda>m. note_id m \<noteq> note_id n) h)"
proof (cases "\<exists>m\<in>set h. note_id m = note_id n")
  case True
  with remove_first_distinct [OF assms, of "note_id n"] show ?thesis
    by (simp add: committed_def)
next
  case False
  then have "filter (\<lambda>m. note_id m \<noteq> note_id n) h = h" by (simp add: filter_id_conv)
  with False show ?thesis by (simp add: committed_def)
qed

lemma historyOk_committed:
  assumes "historyOk h" and "\<not> isEffectivelyEmpty n"
  shows "historyOk (committed n t h)"
proof -
  let ?l = "n\<lparr>timestamp := t\<rparr> # filter (\<lambda>m. note_id m \<noteq> note_id n) h"
  from assms(1) have d: "distinct (map note_id h)" by (simp add: historyOk_def)
  have c: "committed n t h = take MAX_HISTORY_ITEMS ?l" by (rule committed_distinct [OF d])
  have "distinct (map note_id ?l)" using d by (auto simp: distinct_map_filter)
  then have "distinct (take MAX_HISTORY_ITEMS (map note_id ?l))" by (rule distinct_take)
  then have 1: "distinct (map note_id (take MAX_HISTORY_ITEMS ?l))" by (simp only: take_map)
  have "\<forall>m\<in>set ?l. \<not> isEffectivelyEmpty m" using assms by (auto simp: historyOk_def)
  then have 2: "\<forall>m\<in>set (take MAX_HISTORY_ITEMS ?l). \<not> isEffectivelyEmpty m"
    by (meson in_set_takeD)
  have 3: "length (take MAX_HISTORY_ITEMS ?l) \<le> MAX_HISTORY_ITEMS" by simp
  from 1 2 3 show ?thesis unfolding c historyOk_def by blast
qed

lemma inv_commit: "historyInv s \<Longrightarrow> historyInv (saveCurrentNoteToHistory s)"
proof -
  assume i: "historyInv s"
  show ?thesis
  proof (cases "currentNote (updateCurrentNoteFromDOM s)")
    case None
    then have "currentNote s = None" by simp
    then show ?thesis using i by (simp add: commit_None historyInv_def)
  next
    case (Some n)
    show ?thesis
    proof (cases "isEffectivelyEmpty n")
      case True
      with Some i show ?thesis by (simp add: commit_empty historyInv_def)
    next
      case False
      from i have "historyOk (notesHistory s)" by (simp add: historyInv_def)
      then have "historyOk (committed n (now s) (notesHistory s))"
        using False by (rule historyOk_committed)
      with i show ?thesis by (simp add: historyInv_def commit_history [OF Some False])
    qed
  qed
qed

lemma saveDraft_frame [simp]:
  "notesHistory (saveDraft im s) = notesHistory s"
  "storedHistory (saveDraft im s) = storedHistory s"
  "serialise (saveDraft im s) = serialise s"
  by (simp_all add: saveDraft_def Let_def clearTimeout_def split: option.splits)

lemma scheduleAutoSave_frame [simp]:
  "notesHistory (scheduleAutoSave s) = notesHistory s"
  "storedHistory (scheduleAutoSave s) = storedHistory s"
  "serialise (scheduleAutoSave s) = serialise s"
  by (simp_all add: scheduleAutoSave_def Let_def clearTimeout_def setTimeout_def split: option.splits)

lemma commit_serialise [simp]: "serialise (saveCurrentNoteToHistory s) = serialise s"
  by (simp add: saveCurrentNoteToHistory_def saveHistory_def Let_def split: option.splits)

lemma populate_frame [simp]:
  "notesHistory (populateFromCurrentNote s) = notesHistory s"
  "storedHistory (populateFromCurrentNote s) = storedHistory s"
  "serialise (populateFromCurrentNote s) = serialise s"
  by (simp_all add: populateFromCurrentNote_def Let_def split: option.splits)

lemma fire_frame [simp]:
  "notesHistory (fire t s) = notesHistory s"
  "storedHistory (fire t s) = storedHistory s"
  by (simp_all add: fire_def)

lemma fold_fire_frame [simp]:
  "notesHistory (fold fire ts s) = notesHistory s"
  "storedHistory (fold fire ts s) = storedHistory s"
  by (induction ts arbitrary: s) simp_all

lemma elapse_frame [simp]:
  "notesHistory (elapse d s) = notesHistory s"
  "storedHistory (elapse d s) = storedHistory s"
  by (simp_all add: elapse_def Let_def)

lemma polish_frame [simp]:
  "notesHistory (getPolishedNote_begin s) = notesHistory s"
  "storedHistory (getPolishedNote_begin s) = storedHistory s"
  "notesHistory (getPolishedNote_resume marked r s) = notesHistory s"
  "storedHistory (getPolishedNote_resume marked r s) = storedHistory s"
  by (simp_all add: getPolishedNote_begin_def getPolishedNote_resume_def Let_def
        split: option.splits outcome.splits)

lemma elaborate_frame [simp]:
  "notesHistory (getElaboratedNote_begin s) = notesHistory s"
  "storedHistory (getElaboratedNote_begin s) = storedHistory s"
  "notesHistory (getElaboratedNote_resume marked r s) = notesHistory s"
  "storedHistory (getElaboratedNote_resume marked r s) = storedHistory s"
  by (simp_all add: getElaboratedNote_begin_def getElaboratedNote_resume_def Let_def
        split: option.splits outcome.splits)

lemma inv_createNewNote: "historyInv s \<Longrightarrow> historyInv (createNewNote sc s)"
proof -
  assume i: "historyInv s"
  have "historyInv (if sc then saveCurrentNoteToHistory s else s)" using i by (simp add: inv_commit)
  then show ?thesis
    by (simp add: createNewNote_def Let_def historyInv_def)
qed

lemma inv_loadNote: "historyInv s \<Longrightarrow> historyInv (loadNote k s)"
  using inv_commit [of s] by (simp add: loadNote_def Let_def historyInv_def split: option.splits)

lemma inv_finish: "historyInv s \<Longrightarrow> historyInv (getTranscription_finish s)"
  using inv_commit [of "s\<lparr>recordingStatus := str ''Notes complete. Ready for next recording.''\<rparr>"]
  by (simp add: getTranscription_finish_def historyInv_def)

lemma inv_resume: "historyInv s \<Longrightarrow> historyInv (fst (getTranscription_resume r s))"
proof -
  assume i: "historyInv s"
  have c: "historyInv s'" if "notesHistory s' = notesHistory s" "storedHistory s' = storedHistory s" for s'
    using i inv_frame [OF that] by simp
  have a: "historyInv (saveCurrentNoteToHistory s')"
    if "notesHistory s' = notesHistory s" "storedHistory s' = storedHistory s" for s'
    using c [OF that] by (rule inv_commit)
  have b: "historyInv (getTranscription_finish s')"
    if "notesHistory s' = notesHistory s" "storedHistory s' = storedHistory s" for s'
    using c [OF that] by (rule inv_finish)
  show ?thesis
  proof (cases r)
    case (Rejected msg)
    then show ?thesis by (simp add: getTranscription_resume_def a)
  next
    case (Fulfilled tt)
    show ?thesis
    proof (cases tt)
      case None
      with Fulfilled show ?thesis by (simp add: getTranscription_resume_def a)
    next
      case (Some t1)
      show ?thesis
      proof (cases "currentNote s")
        case None
        with Some Fulfilled show ?thesis by (simp add: getTranscription_resume_def a)
      next
        case (Some n)
        with \<open>tt = Some t1\<close> Fulfilled show ?thesis
          by (simp add: getTranscription_resume_def Let_def a b c)
      qed
    qed
  qed
qed

lemma inv_constructor: "historyInv b \<or> storedHistory b = Absent \<Longrightarrow> historyInv (constructor b)"
proof -
  assume a: "historyInv b \<or> storedHistory b = Absent"
  let ?s0 = "b\<lparr>currentNote := None, notesHistory := [], mediaRecorder := False,
                 isRecording := False, audioChunks := [], autoSaveTimeoutId := None,
                 timers := [], nextTimerId := 1\<rparr>"
  have 1: "historyInv (loadHistory ?s0)"
    using a by (auto simp: loadHistory_def historyInv_def historyOk_def split: slot.splits)
  have 2: "historyInv (fst (loadDraft (loadHistory ?s0)))"
    using 1 by (auto simp: loadDraft_def historyInv_def split: slot.splits)
  show ?thesis
    using 2 inv_createNewNote [of "fst (loadDraft (loadHistory ?s0))" False]
    by (simp add: constructor_def Let_def split_def historyInv_def)
qed

lemma inv_step: "historyInv s \<Longrightarrow> historyInv (step marked e s)"
proof (cases e)
  case PageLoad
  then show "historyInv s \<Longrightarrow> ?thesis" by (simp add: inv_constructor)
next
  case ClickNew
  then show "historyInv s \<Longrightarrow> ?thesis" by (simp add: inv_createNewNote)
next
  case (ClickHistoryItem k)
  then show "historyInv s \<Longrightarrow> ?thesis" by (simp add: inv_loadNote)
next
  case (TranscriptionDone r)
  then show "historyInv s \<Longrightarrow> ?thesis" by (simp add: inv_resume)
next
  case EnrichmentDone
  then show "historyInv s \<Longrightarrow> ?thesis" by (simp add: inv_finish)
qed (auto simp: historyInv_def onInput_def updateElement_def toggleRecording_def startRecording_begin_def
       stopRecording_def startRecording_resume_def ondataavailable_def onstop_def
       processAudio_begin_def processAudio_resume_def getTranscription_begin_def Let_def
     split: target.splits option.splits outcome.splits)

lemma reachable_inv: "reachable marked s \<Longrightarrow> historyInv s"
  by (induction rule: reachable.induct) (simp_all add: inv_constructor inv_step)

lemma in_set_tl: "x \<in> set (tl xs) \<Longrightarrow> x \<in> set xs"
  by (cases xs) auto

lemma set_committed: "set (committed n t h) \<subseteq> insert (n\<lparr>timestamp := t\<rparr>) (set h)"
proof -
  have "set (takeWhile (\<lambda>m. note_id m \<noteq> note_id n) h @ tl (dropWhile (\<lambda>m. note_id m \<noteq> note_id n) h)) \<subseteq> set h"
    by (auto dest: set_takeWhileD in_set_tl set_dropWhileD)
  then have "set (n\<lparr>timestamp := t\<rparr> #
        (if \<exists>m\<in>set h. note_id m = note_id n
         then takeWhile (\<lambda>m. note_id m \<noteq> note_id n) h @ tl (dropWhile (\<lambda>m. note_id m \<noteq> note_id n) h)
         else h)) \<subseteq> insert (n\<lparr>timestamp := t\<rparr>) (set h)"
    by auto
  then show ?thesis
    unfolding committed_def by (meson in_set_takeD subsetD subsetI)
qed

lemma constructor_fresh:
  "constructor freshBrowser =
     freshBrowser\<lparr>currentNote := Some \<lparr>note_id = str ''note_0'', title = [], rawTranscription = [],
                     polishedNote = [], elaboratedNote = [], timestamp = 0\<rparr>,
       editorTitle := \<lparr>content = str ''Untitled Note'', placeholderActive = True, placeholderAttr = Some (str ''Untitled Note'')\<rparr>,
       polishedNoteEl := \<lparr>content = str ''Polished'', placeholderActive = True, placeholderAttr = Some (str ''Polished'')\<rparr>,
       elaboratedNoteEl := \<lparr>content = str ''Elaborated'', placeholderActive = True, placeholderAttr = Some (str ''Elaborated'')\<rparr>,
       recordingStatus := str ''Ready to record'',
       storedDraft := Holds \<lparr>note_id = str ''note_0'', title = [], rawTranscription = [],
                     polishedNote = [], elaboratedNote = [], timestamp = 0\<rparr>,
       trace := [SetItemDraft 0]\<rparr>"
  by (simp add: constructor_def freshBrowser_def loadHistory_def loadDraft_def createNewNote_def
      saveDraft_def truthyHandle_def updateCurrentNoteFromDOM_def Let_def js_or_def str_def decimal.simps
      trim_def trimStart_def trimEnd_def isWhiteSpace_def)

section \<open>Committing to the history\<close>

text \<open>
  Claim C1. Whenever \<^verbatim>\<open>saveCurrentNoteToHistory\<close> is called and the current note, once
  refreshed from the page, has a title, a raw transcription, a polished text and an
  elaborated text that are all blank after trimming, the history list and the stored
  history stay as they are. So every note that a commit puts into the history has a field
  that is not blank: a note of the list after the call was in the list before, or has one.
\<close>

theorem saveCurrentNoteToHistory_skips_empty:
  "(\<forall>n. currentNote (updateCurrentNoteFromDOM s) = Some n
        \<and> trim (title n) = [] \<and> trim (rawTranscription n) = []
        \<and> trim (polishedNote n) = [] \<and> trim (elaboratedNote n) = []
      \<longrightarrow> notesHistory (saveCurrentNoteToHistory s) = notesHistory s
          \<and> storedHistory (saveCurrentNoteToHistory s) = storedHistory s)
   \<and> (\<forall>m\<in>set (notesHistory (saveCurrentNoteToHistory s)).
         m \<in> set (notesHistory s)
         \<or> trim (title m) \<noteq> [] \<or> trim (rawTranscription m) \<noteq> []
         \<or> trim (polishedNote m) \<noteq> [] \<or> trim (elaboratedNote m) \<noteq> [])"
proof (intro conjI allI impI ballI)
  fix n
  assume a: "currentNote (updateCurrentNoteFromDOM s) = Some n
        \<and> trim (title n) = [] \<and> trim (rawTranscription n) = []
        \<and> trim (polishedNote n) = [] \<and> trim (elaboratedNote n) = []"
  then have e: "isEffectivelyEmpty n" by (simp add: isEffectivelyEmpty_def)
  from a have c: "currentNote (updateCurrentNoteFromDOM s) = Some n" by simp
  show "notesHistory (saveCurrentNoteToHistory s) = notesHistory s"
    by (simp add: commit_empty [OF c e])
  show "storedHistory (saveCurrentNoteToHistory s) = storedHistory s"
    by (simp add: commit_empty [OF c e])
next
  fix m
  assume m: "m \<in> set (notesHistory (saveCurrentNoteToHistory s))"
  show "m \<in> set (notesHistory s)
         \<or> trim (title m) \<noteq> [] \<or> trim (rawTranscription m) \<noteq> []
         \<or> trim (polishedNote m) \<noteq> [] \<or> trim (elaboratedNote m) \<noteq> []"
  proof (cases "currentNote (updateCurrentNoteFromDOM s)")
    case None
    then have "currentNote s = None" by simp
    with m show ?thesis by (simp add: commit_None)
  next
    case (Some n)
    show ?thesis
    proof (cases "isEffectivelyEmpty n")
      case True
      with Some m show ?thesis by (simp add: commit_empty)
    next
      case False
      from m have "m \<in> set (committed n (now s) (notesHistory s))"
        by (simp add: commit_history [OF Some False])
      with set_committed have "m = n\<lparr>timestamp := now s\<rparr> \<or> m \<in> set (notesHistory s)" by blast
      with False show ?thesis by (auto simp: isEffectivelyEmpty_def)
    qed
  qed
qed

theorem saveCurrentNoteToHistory_skips_empty_witness:
  "(let s = constructor freshBrowser;
        n = \<lparr>note_id = str ''note_0'', title = [], rawTranscription = [],
                     polishedNote = [], elaboratedNote = [], timestamp = 0\<rparr>
    in currentNote (updateCurrentNoteFromDOM s) = Some n
        \<and> trim (title n) = [] \<and> trim (rawTranscription n) = []
        \<and> trim (polishedNote n) = [] \<and> trim (elaboratedNote n) = []
        \<and> notesHistory (saveCurrentNoteToHistory s) = notesHistory s
        \<and> storedHistory (saveCurrentNoteToHistory s) = storedHistory s)
  \<and> (let s = onInput Title (str ''Idea'') (constructor freshBrowser);
          m = \<lparr>note_id = str ''note_0'', title = str ''Idea'', rawTranscription = [],
                     polishedNote = [], elaboratedNote = [], timestamp = 0\<rparr>
      in m \<in> set (notesHistory (saveCurrentNoteToHistory s))
         \<and> (m \<in> set (notesHistory s)
         \<or> trim (title m) \<noteq> [] \<or> trim (rawTranscription m) \<noteq> []
         \<or> trim (polishedNote m) \<noteq> [] \<or> trim (elaboratedNote m) \<noteq> []))"
proof -
  let ?s = "constructor freshBrowser"
  let ?n = "\<lparr>note_id = str ''note_0'', title = [], rawTranscription = [],
                     polishedNote = [], elaboratedNote = [], timestamp = 0\<rparr>"
  let ?s1 = "onInput Title (str ''Idea'') (constructor freshBrowser)"
  let ?m = "\<lparr>note_id = str ''note_0'', title = str ''Idea'', rawTranscription = [],
                     polishedNote = [], elaboratedNote = [], timestamp = 0\<rparr>"
  have h: "currentNote (updateCurrentNoteFromDOM ?s) = Some ?n
        \<and> trim (title ?n) = [] \<and> trim (rawTranscription ?n) = []
        \<and> trim (polishedNote ?n) = [] \<and> trim (elaboratedNote ?n) = []"
    unfolding constructor_fresh
    by (simp add: freshBrowser_def updateCurrentNoteFromDOM_def Let_def js_or_def
          str_def trim_def trimStart_def trimEnd_def isWhiteSpace_def)
  have m: "?m \<in> set (notesHistory (saveCurrentNoteToHistory ?s1))"
    unfolding constructor_fresh
    by (simp add: freshBrowser_def onInput_def updateElement_def
          scheduleAutoSave_def truthyHandle_def setTimeout_def saveCurrentNoteToHistory_def
          updateCurrentNoteFromDOM_def isEffectivelyEmpty_def findIndex_def saveHistory_def
          MAX_HISTORY_ITEMS_def Let_def js_or_def
          str_def trim_def trimStart_def trimEnd_def isWhiteSpace_def)
  from saveCurrentNoteToHistory_skips_empty [of ?s] h have a: "notesHistory (saveCurrentNoteToHistory ?s) = notesHistory ?s
        \<and> storedHistory (saveCurrentNoteToHistory ?s) = storedHistory ?s"
    by blast
  from saveCurrentNoteToHistory_skips_empty [of ?s1] m have b: "?m \<in> set (notesHistory ?s1)
         \<or> trim (title ?m) \<noteq> [] \<or> trim (rawTranscription ?m) \<noteq> []
         \<or> trim (polishedNote ?m) \<noteq> [] \<or> trim (elaboratedNote ?m) \<noteq> []"
    by blast
  from h a m b show ?thesis unfolding Let_def by blast
qed

section \<open>An example session\<close>

lemmas eval_defs = freshBrowser_def onInput_def updateElement_def scheduleAutoSave_def truthyHandle_def
      setTimeout_def clearTimeout_def AUTO_SAVE_DELAY_def elapse_def fire_def createNewNote_def loadNote_def
      saveCurrentNoteToHistory_def updateCurrentNoteFromDOM_def isEffectivelyEmpty_def findIndex_def splice1_def
      saveHistory_def saveDraft_def populateFromCurrentNote_def showField_def
      MAX_HISTORY_ITEMS_def Let_def js_or_def decimal.simps
      str_def trim_def trimStart_def trimEnd_def isWhiteSpace_def

lemma reachable_run: "reachable marked s \<Longrightarrow> reachable marked (run marked es s)"
  by (induction es arbitrary: s) (auto intro: reachable.after)

lemma reachable_session: "reachable marked (run marked es (constructor freshBrowser))"
  by (rule reachable_run, rule reachable.opened) (simp_all add: freshBrowser_def)

lemma session_state:
  "run (\<lambda>x. x) session (constructor freshBrowser) =
   \<lparr>currentNote = Some \<lparr>note_id = str ''note_0'', title = str ''A'', rawTranscription = [],
        polishedNote = [], elaboratedNote = [], timestamp = 5\<rparr>,
    notesHistory =
      [\<lparr>note_id = str ''note_5'', title = str ''B'', rawTranscription = [], polishedNote = [],
         elaboratedNote = [], timestamp = 10\<rparr>,
       \<lparr>note_id = str ''note_0'', title = str ''A'', rawTranscription = [], polishedNote = [],
         elaboratedNote = [], timestamp = 5\<rparr>],
    editorTitle = \<lparr>content = str ''A2'', placeholderActive = False,
         placeholderAttr = Some (str ''Untitled Note'')\<rparr>,
    polishedNoteEl = \<lparr>content = str ''Polished'', placeholderActive = True,
         placeholderAttr = Some (str ''Polished'')\<rparr>,
    elaboratedNoteEl = \<lparr>content = str ''Elaborated'', placeholderActive = True,
         placeholderAttr = Some (str ''Elaborated'')\<rparr>,
    recordingStatus = str ''Ready to record'',
    mediaRecorder = False, isRecording = False, audioChunks = [],
    autoSaveTimeoutId = Some 3, timers = [(3, 1510)], nextTimerId = 4, now = 10,
    storedHistory = Holds
      [\<lparr>note_id = str ''note_5'', title = str ''B'', rawTranscription = [], polishedNote = [],
         elaboratedNote = [], timestamp = 10\<rparr>,
       \<lparr>note_id = str ''note_0'', title = str ''A'', rawTranscription = [], polishedNote = [],
         elaboratedNote = [], timestamp = 5\<rparr>],
    storedDraft = Holds \<lparr>note_id = str ''note_0'', title = str ''A'', rawTranscription = [],
        polishedNote = [], elaboratedNote = [], timestamp = 5\<rparr>,
    storageFull = False, serialise = (\<lambda>x. x),
    trace = [SetItemDraft 0, CommitInvoked, SetItemHistory, SetItemDraft 5,
       CommitInvoked, SetItemHistory, SetItemDraft 10, CommitInvoked, SetItemDraft 10]\<rparr>"
  unfolding session_def run.simps step.simps constructor_fresh
  by (simp add: eval_defs)

lemma session_refreshed:
  "currentNote (updateCurrentNoteFromDOM (run (\<lambda>x. x) session (constructor freshBrowser)))
     = Some \<lparr>note_id = str ''note_0'', title = str ''A2'', rawTranscription = [],
              polishedNote = [], elaboratedNote = [], timestamp = 5\<rparr>"
  unfolding session_state
  by (simp add: updateCurrentNoteFromDOM_def Let_def js_or_def str_def trim_def trimStart_def
        trimEnd_def isWhiteSpace_def)

lemma not_empty_A2:
  "\<not> isEffectivelyEmpty \<lparr>note_id = str ''note_0'', title = str ''A2'', rawTranscription = [],
              polishedNote = [], elaboratedNote = [], timestamp = 5\<rparr>"
  by (simp add: isEffectivelyEmpty_def str_def trim_def trimStart_def trimEnd_def isWhiteSpace_def)

lemma first_input_state:
  "currentNote (updateCurrentNoteFromDOM (run (\<lambda>x. x) [Input Title (str ''A'')] (constructor freshBrowser)))
     = Some \<lparr>note_id = str ''note_0'', title = str ''A'', rawTranscription = [],
              polishedNote = [], elaboratedNote = [], timestamp = 0\<rparr>"
  "notesHistory (run (\<lambda>x. x) [Input Title (str ''A'')] (constructor freshBrowser)) = []"
  "now (run (\<lambda>x. x) [Input Title (str ''A'')] (constructor freshBrowser)) = 0"
  unfolding run.simps step.simps constructor_fresh
  by (simp_all add: eval_defs)

lemma not_empty_A:
  "\<not> isEffectivelyEmpty \<lparr>note_id = str ''note_0'', title = str ''A'', rawTranscription = [],
              polishedNote = [], elaboratedNote = [], timestamp = 0\<rparr>"
  by (simp add: isEffectivelyEmpty_def str_def trim_def trimStart_def trimEnd_def isWhiteSpace_def)

section \<open>Loading a note that is not there\<close>

text \<open>
  Claim C10. \<^verbatim>\<open>loadNote\<close> with an id that no entry of the history list has changes
  nothing at all: the state after the call is the state before it, so the current note, the
  history, both storage items and the three elements are as they were, and no commit of the
  open note was made.
\<close>

theorem loadNote_unknown_id:
  "noteId \<notin> note_id ` set (notesHistory s) \<Longrightarrow> loadNote noteId s = s"
proof -
  assume "noteId \<notin> note_id ` set (notesHistory s)"
  then have "find (\<lambda>m. note_id m = noteId) (notesHistory s) = None"
    by (auto simp: find_None_iff)
  then show ?thesis by (simp add: loadNote_def)
qed

theorem loadNote_unknown_id_witness:
  "str ''note_7'' \<notin> note_id ` set (notesHistory (run (\<lambda>x. x) session (constructor freshBrowser)))
   \<and> notesHistory (run (\<lambda>x. x) session (constructor freshBrowser)) \<noteq> []
   \<and> loadNote (str ''note_7'') (run (\<lambda>x. x) session (constructor freshBrowser))
       = run (\<lambda>x. x) session (constructor freshBrowser)"
proof -
  have h: "str ''note_7'' \<notin> note_id ` set (notesHistory (run (\<lambda>x. x) session (constructor freshBrowser)))"
    unfolding session_state by (simp add: str_def)
  have n: "notesHistory (run (\<lambda>x. x) session (constructor freshBrowser)) \<noteq> []"
    unfolding session_state by simp
  from loadNote_unknown_id [OF h] h n show ?thesis by blast
qed

section \<open>The history in the reachable states\<close>

text \<open>What \<^verbatim>\<open>loadHistory\<close> finds in storage becomes the list, whatever its length.\<close>

lemma loadHistory_takes_stored: "storedHistory s = Holds h \<Longrightarrow> notesHistory (loadHistory s) = h"
  by (simp add: loadHistory_def)

lemma filter_key_distinct:
  "distinct (map f xs) \<Longrightarrow> k \<in> f ` set xs \<Longrightarrow> length (filter (\<lambda>m. f m = k) xs) = 1"
proof (induction xs)
  case Nil
  then show ?case by simp
next
  case (Cons a xs)
  show ?case
  proof (cases "f a = k")
    case True
    with Cons.prems have "\<forall>x\<in>set xs. f x \<noteq> k" by (auto simp: image_iff)
    then have "filter (\<lambda>m. f m = k) xs = []" by (simp add: filter_empty_conv)
    with True show ?thesis by simp
  next
    case False
    with Cons show ?thesis by auto
  qed
qed

text \<open>
  Claim C2. In every state the application can reach, the history list holds at most 20
  notes: it holds at most 20 before and after a commit, and a commit that inserts leaves
  the first 20 entries of the list with the note in front, so that what is dropped is
  dropped from the end. \<^verbatim>\<open>loadHistory\<close> takes the stored list as it is; the stored list
  is within the maximum because \<^verbatim>\<open>saveHistory\<close> alone writes it, after the cut.
\<close>

theorem history_within_maximum:
  assumes "reachable marked s"
  shows "length (notesHistory s) \<le> 20
       \<and> length (notesHistory (saveCurrentNoteToHistory s)) \<le> 20
       \<and> (\<forall>n. currentNote (updateCurrentNoteFromDOM s) = Some n \<and> \<not> isEffectivelyEmpty n
            \<longrightarrow> notesHistory (saveCurrentNoteToHistory s)
                = take 20 (n\<lparr>timestamp := now s\<rparr>
                           # filter (\<lambda>m. note_id m \<noteq> note_id n) (notesHistory s)))"
proof (intro conjI allI impI)
  from assms have i: "historyInv s" by (rule reachable_inv)
  then show "length (notesHistory s) \<le> 20"
    by (simp add: historyInv_def historyOk_def MAX_HISTORY_ITEMS_def)
  from i have "historyInv (saveCurrentNoteToHistory s)" by (rule inv_commit)
  then show "length (notesHistory (saveCurrentNoteToHistory s)) \<le> 20"
    by (simp add: historyInv_def historyOk_def MAX_HISTORY_ITEMS_def)
  fix n
  assume a: "currentNote (updateCurrentNoteFromDOM s) = Some n \<and> \<not> isEffectivelyEmpty n"
  from i have d: "distinct (map note_id (notesHistory s))"
    by (simp add: historyInv_def historyOk_def)
  from a have "notesHistory (saveCurrentNoteToHistory s) = committed n (now s) (notesHistory s)"
    by (simp add: commit_history)
  then show "notesHistory (saveCurrentNoteToHistory s)
                = take 20 (n\<lparr>timestamp := now s\<rparr>
                           # filter (\<lambda>m. note_id m \<noteq> note_id n) (notesHistory s))"
    by (simp only: committed_distinct [OF d] MAX_HISTORY_ITEMS_def)
qed

theorem history_within_maximum_witness:
  "(let s = run (\<lambda>x. x) session (constructor freshBrowser);
        n = \<lparr>note_id = str ''note_0'', title = str ''A2'', rawTranscription = [],
              polishedNote = [], elaboratedNote = [], timestamp = 5\<rparr>
    in reachable (\<lambda>x. x) s
       \<and> length (notesHistory s) \<le> 20
       \<and> length (notesHistory (saveCurrentNoteToHistory s)) \<le> 20
       \<and> currentNote (updateCurrentNoteFromDOM s) = Some n \<and> \<not> isEffectivelyEmpty n
       \<and> notesHistory (saveCurrentNoteToHistory s)
           = take 20 (n\<lparr>timestamp := now s\<rparr> # filter (\<lambda>m. note_id m \<noteq> note_id n) (notesHistory s)))"
proof -
  let ?s = "run (\<lambda>x. x) session (constructor freshBrowser)"
  have r: "reachable (\<lambda>x. x) ?s" by (rule reachable_session)
  from history_within_maximum [OF r] session_refreshed not_empty_A2 r
  show ?thesis unfolding Let_def by blast
qed

text \<open>
  Claim C3. A commit of a note whose id is in the history list leaves exactly one entry with
  that id, at the front; the earlier entry is gone, the list is as long as before and the
  other entries are in their old order. A commit of a note whose id is not in the list puts
  it in front of the old entries, which keep their order, and cuts the list to the maximum.
\<close>

theorem commit_replaces_or_inserts:
  assumes "reachable marked s"
    and "currentNote (updateCurrentNoteFromDOM s) = Some n"
    and "\<not> isEffectivelyEmpty n"
  shows "(note_id n \<in> note_id ` set (notesHistory s) \<longrightarrow>
            notesHistory (saveCurrentNoteToHistory s)
              = n\<lparr>timestamp := now s\<rparr> # filter (\<lambda>m. note_id m \<noteq> note_id n) (notesHistory s)
            \<and> length (filter (\<lambda>m. note_id m = note_id n) (notesHistory (saveCurrentNoteToHistory s))) = 1
            \<and> length (notesHistory (saveCurrentNoteToHistory s)) = length (notesHistory s))
       \<and> (note_id n \<notin> note_id ` set (notesHistory s) \<longrightarrow>
            notesHistory (saveCurrentNoteToHistory s)
              = take MAX_HISTORY_ITEMS (n\<lparr>timestamp := now s\<rparr> # notesHistory s))"
proof -
  let ?h = "notesHistory s"
  let ?f = "filter (\<lambda>m. note_id m \<noteq> note_id n) ?h"
  let ?n = "n\<lparr>timestamp := now s\<rparr>"
  from assms(1) have i: "historyInv s" by (rule reachable_inv)
  then have d: "distinct (map note_id ?h)" and l: "length ?h \<le> MAX_HISTORY_ITEMS"
    by (simp_all add: historyInv_def historyOk_def)
  have c: "notesHistory (saveCurrentNoteToHistory s) = take MAX_HISTORY_ITEMS (?n # ?f)"
    using commit_history(1) [OF assms(2,3)] committed_distinct [OF d] by simp
  have absent: "?f = ?h" if "note_id n \<notin> note_id ` set ?h"
    using that by (auto simp: filter_id_conv image_iff)
  have present: "take MAX_HISTORY_ITEMS (?n # ?f) = ?n # ?f \<and> length (?n # ?f) = length ?h"
    if p: "note_id n \<in> note_id ` set ?h"
  proof -
    have "length (filter (\<lambda>m. note_id m = note_id n) ?h) = 1"
      using d p by (rule filter_key_distinct)
    moreover have "length (filter (\<lambda>m. note_id m = note_id n) ?h) + length ?f = length ?h"
      by (rule sum_length_filter_compl)
    ultimately have e: "length (?n # ?f) = length ?h" by simp
    with l have "length (?n # ?f) \<le> MAX_HISTORY_ITEMS" by simp
    then have "take MAX_HISTORY_ITEMS (?n # ?f) = ?n # ?f" by (rule take_all)
    with e show ?thesis by simp
  qed
  have one: "length (filter (\<lambda>m. note_id m = note_id n) (?n # ?f)) = 1"
  proof -
    have "filter (\<lambda>m. note_id m = note_id n) ?f = []" by (simp add: filter_empty_conv)
    then show ?thesis by simp
  qed
  show ?thesis
  proof (intro conjI impI)
    assume p: "note_id n \<in> note_id ` set ?h"
    from present [OF p] c
    show "notesHistory (saveCurrentNoteToHistory s) = ?n # ?f" by simp
    then show "length (filter (\<lambda>m. note_id m = note_id n) (notesHistory (saveCurrentNoteToHistory s))) = 1"
      using one by simp
    from present [OF p] c
    show "length (notesHistory (saveCurrentNoteToHistory s)) = length ?h" by simp
  next
    assume a: "note_id n \<notin> note_id ` set ?h"
    from absent [OF a] c
    show "notesHistory (saveCurrentNoteToHistory s) = take MAX_HISTORY_ITEMS (?n # ?h)" by simp
  qed
qed

theorem commit_replaces_or_inserts_witness:
  "(let s = run (\<lambda>x. x) session (constructor freshBrowser);
        n = \<lparr>note_id = str ''note_0'', title = str ''A2'', rawTranscription = [],
              polishedNote = [], elaboratedNote = [], timestamp = 5\<rparr>
    in reachable (\<lambda>x. x) s \<and> currentNote (updateCurrentNoteFromDOM s) = Some n
       \<and> \<not> isEffectivelyEmpty n \<and> note_id n \<in> note_id ` set (notesHistory s)
       \<and> notesHistory s =
           [\<lparr>note_id = str ''note_5'', title = str ''B'', rawTranscription = [], polishedNote = [],
              elaboratedNote = [], timestamp = 10\<rparr>,
            \<lparr>note_id = str ''note_0'', title = str ''A'', rawTranscription = [], polishedNote = [],
              elaboratedNote = [], timestamp = 5\<rparr>]
       \<and> notesHistory (saveCurrentNoteToHistory s) =
           [\<lparr>note_id = str ''note_0'', title = str ''A2'', rawTranscription = [], polishedNote = [],
              elaboratedNote = [], timestamp = 10\<rparr>,
            \<lparr>note_id = str ''note_5'', title = str ''B'', rawTranscription = [], polishedNote = [],
              elaboratedNote = [], timestamp = 10\<rparr>])
   \<and> (let s = run (\<lambda>x. x) [Input Title (str ''A'')] (constructor freshBrowser);
            n = \<lparr>note_id = str ''note_0'', title = str ''A'', rawTranscription = [],
              polishedNote = [], elaboratedNote = [], timestamp = 0\<rparr>
        in reachable (\<lambda>x. x) s \<and> currentNote (updateCurrentNoteFromDOM s) = Some n
           \<and> \<not> isEffectivelyEmpty n \<and> note_id n \<notin> note_id ` set (notesHistory s)
           \<and> notesHistory (saveCurrentNoteToHistory s) = [n])"
proof -
  let ?s = "run (\<lambda>x. x) session (constructor freshBrowser)"
  let ?n = "\<lparr>note_id = str ''note_0'', title = str ''A2'', rawTranscription = [],
              polishedNote = [], elaboratedNote = [], timestamp = 5\<rparr>"
  let ?s' = "run (\<lambda>x. x) [Input Title (str ''A'')] (constructor freshBrowser)"
  let ?n' = "\<lparr>note_id = str ''note_0'', title = str ''A'', rawTranscription = [],
              polishedNote = [], elaboratedNote = [], timestamp = 0\<rparr>"
  have r: "reachable (\<lambda>x. x) ?s" by (rule reachable_session)
  have h: "notesHistory ?s =
           [\<lparr>note_id = str ''note_5'', title = str ''B'', rawTranscription = [], polishedNote = [],
              elaboratedNote = [], timestamp = 10\<rparr>,
            \<lparr>note_id = str ''note_0'', title = str ''A'', rawTranscription = [], polishedNote = [],
              elaboratedNote = [], timestamp = 5\<rparr>]"
    unfolding session_state by simp
  have t: "now ?s = 10" unfolding session_state by simp
  have p: "note_id ?n \<in> note_id ` set (notesHistory ?s)" unfolding h by simp
  from commit_replaces_or_inserts [OF r session_refreshed not_empty_A2] p
  have "notesHistory (saveCurrentNoteToHistory ?s)
          = ?n\<lparr>timestamp := now ?s\<rparr> # filter (\<lambda>m. note_id m \<noteq> note_id ?n) (notesHistory ?s)"
    by blast
  then have a: "notesHistory (saveCurrentNoteToHistory ?s) =
           [\<lparr>note_id = str ''note_0'', title = str ''A2'', rawTranscription = [], polishedNote = [],
              elaboratedNote = [], timestamp = 10\<rparr>,
            \<lparr>note_id = str ''note_5'', title = str ''B'', rawTranscription = [], polishedNote = [],
              elaboratedNote = [], timestamp = 10\<rparr>]"
    unfolding h t by (simp add: str_def)
  have r': "reachable (\<lambda>x. x) ?s'" by (rule reachable_session)
  have q: "note_id ?n' \<notin> note_id ` set (notesHistory ?s')"
    unfolding first_input_state(2) by simp
  from commit_replaces_or_inserts [OF r' first_input_state(1) not_empty_A] q
  have "notesHistory (saveCurrentNoteToHistory ?s')
          = take MAX_HISTORY_ITEMS (?n'\<lparr>timestamp := now ?s'\<rparr> # notesHistory ?s')"
    by blast
  then have b: "notesHistory (saveCurrentNoteToHistory ?s') = [?n']"
    unfolding first_input_state(2,3) by (simp add: MAX_HISTORY_ITEMS_def)
  from r session_refreshed not_empty_A2 p h a r' first_input_state(1) not_empty_A q b
  show ?thesis unfolding Let_def by blast
qed

section \<open>Loading the same note twice\<close>

text \<open>
  Claim C7 says that \<^verbatim>\<open>loadNote\<close> called twice with the id of a history entry shows what
  one call shows. At the end of the example session the open note is the history entry
  \<^verbatim>\<open>note_0\<close> and its title was edited from A to A2. \<^verbatim>\<open>loadNote\<close> looks the entry up
  before it commits the open note, so the first call shows the entry as it was, title A,
  while the commit puts the edited note into the history; the second call finds that one
  and shows title A2.
\<close>

theorem loadNote_twice_differs:
  "(let s = run (\<lambda>x. x) session (constructor freshBrowser); k = str ''note_0''
    in reachable (\<lambda>x. x) s
       \<and> k \<in> note_id ` set (notesHistory s)
       \<and> content (editorTitle (loadNote k s)) = str ''A''
       \<and> content (editorTitle (loadNote k (loadNote k s))) = str ''A2'')"
proof -
  let ?s = "run (\<lambda>x. x) session (constructor freshBrowser)"
  have r: "reachable (\<lambda>x. x) ?s" by (rule reachable_session)
  have k: "str ''note_0'' \<in> note_id ` set (notesHistory ?s)"
    unfolding session_state by (simp add: str_def)
  have 1: "content (editorTitle (loadNote (str ''note_0'') ?s)) = str ''A''"
    unfolding session_state by (simp add: eval_defs)
  have 2: "content (editorTitle (loadNote (str ''note_0'') (loadNote (str ''note_0'') ?s))) = str ''A2''"
    unfolding session_state by (simp add: eval_defs)
  from r k 1 2 show ?thesis unfolding Let_def by blast
qed

lemma showField_twice: "showField v fb w (showField v fb w el) = showField v fb w el"
  by (simp add: showField_def)

lemma saveDraft_elements [simp]:
  "editorTitle (saveDraft im s) = editorTitle s"
  "polishedNoteEl (saveDraft im s) = polishedNoteEl s"
  "elaboratedNoteEl (saveDraft im s) = elaboratedNoteEl s"
  by (simp_all add: saveDraft_def Let_def clearTimeout_def split: option.splits)

lemma loadNote_screen:
  assumes "find (\<lambda>x. note_id x = k) (notesHistory s) = Some m"
  shows "editorTitle (loadNote k s)
           = showField (title m) (str ''Untitled Note'') (\<lambda>x. x) (editorTitle s)"
    and "polishedNoteEl (loadNote k s)
           = showField (polishedNote m) [] (serialise s) (polishedNoteEl s)"
    and "elaboratedNoteEl (loadNote k s)
           = showField (elaboratedNote m) [] (serialise s) (elaboratedNoteEl s)"
    and "serialise (loadNote k s) = serialise s"
  using assms by (simp_all add: loadNote_def Let_def populateFromCurrentNote_def)

lemma update_note_id:
  "currentNote s = Some n \<Longrightarrow> currentNote (updateCurrentNoteFromDOM s) = Some n' \<Longrightarrow> note_id n' = note_id n"
  by (auto simp: updateCurrentNoteFromDOM_def Let_def)

lemma find_in_commit:
  assumes "historyInv s" and "currentNote s = Some n" and "note_id n \<noteq> k"
    and "find (\<lambda>x. note_id x = k) (notesHistory s) = Some m"
    and "find (\<lambda>x. note_id x = k) (notesHistory (saveCurrentNoteToHistory s)) = Some y"
  shows "y = m"
proof -
  let ?h = "notesHistory s"
  from assms(1) have d: "distinct (map note_id ?h)" by (simp add: historyInv_def historyOk_def)
  from assms(4) have m: "m \<in> set ?h" "note_id m = k"
    by (auto simp: find_Some_iff in_set_conv_nth)
  from assms(5) have y: "y \<in> set (notesHistory (saveCurrentNoteToHistory s))" "note_id y = k"
    by (auto simp: find_Some_iff in_set_conv_nth)
  from assms(2) obtain n' where n': "currentNote (updateCurrentNoteFromDOM s) = Some n'"
    by (metis not_Some_eq option.distinct(1) update_current_None)
  with assms(2) have idn: "note_id n' = note_id n" by (rule update_note_id)
  have "y \<in> set ?h"
  proof (cases "isEffectivelyEmpty n'")
    case True
    with n' y show ?thesis by (simp add: commit_empty)
  next
    case False
    from y have "y \<in> set (committed n' (now s) ?h)" by (simp add: commit_history [OF n' False])
    with set_committed have "y = n'\<lparr>timestamp := now s\<rparr> \<or> y \<in> set ?h" by blast
    with y(2) idn assms(3) show ?thesis by auto
  qed
  with d m y(2) show ?thesis by (metis distinct_map inj_onD)
qed

text \<open>
  The two calls differ in that case only: when the open note is not the one that is
  loaded, the second call shows what the first one showed.
\<close>

lemma loadNote_twice_other_note:
  assumes "reachable marked s" and "currentNote s = Some n" and "note_id n \<noteq> k"
  shows "editorTitle (loadNote k (loadNote k s)) = editorTitle (loadNote k s)
       \<and> polishedNoteEl (loadNote k (loadNote k s)) = polishedNoteEl (loadNote k s)
       \<and> elaboratedNoteEl (loadNote k (loadNote k s)) = elaboratedNoteEl (loadNote k s)"
proof (cases "find (\<lambda>x. note_id x = k) (notesHistory s)")
  case None
  then have "loadNote k s = s" by (simp add: loadNote_def)
  then show ?thesis by simp
next
  case (Some m)
  let ?s1 = "loadNote k s"
  from assms(1) have i: "historyInv s" by (rule reachable_inv)
  have h1: "notesHistory ?s1 = notesHistory (saveCurrentNoteToHistory s)"
    using Some by (simp add: loadNote_def Let_def)
  show ?thesis
  proof (cases "find (\<lambda>x. note_id x = k) (notesHistory ?s1)")
    case None
    then have "loadNote k ?s1 = ?s1" by (simp add: loadNote_def)
    then show ?thesis by simp
  next
    case (Some y)
    with h1 have "find (\<lambda>x. note_id x = k) (notesHistory (saveCurrentNoteToHistory s)) = Some y"
      by simp
    from find_in_commit [OF i assms(2,3) \<open>find (\<lambda>x. note_id x = k) (notesHistory s) = Some m\<close> this]
    have "y = m" .
    with Some have f1: "find (\<lambda>x. note_id x = k) (notesHistory ?s1) = Some m" by simp
    show ?thesis
      unfolding loadNote_screen [OF f1]
      unfolding loadNote_screen [OF \<open>find (\<lambda>x. note_id x = k) (notesHistory s) = Some m\<close>]
      by (simp add: showField_twice)
  qed
qed

section \<open>A recording without audio\<close>

text \<open>
  Claim C5. When a recording stops and no audio chunk was captured, the status line says
  that no audio data was captured, \<^verbatim>\<open>processAudio\<close> is not called, so that no
  transcription is requested, and nothing is committed: the trace of calls, the history
  list and the stored history are as before.
\<close>

theorem onstop_without_chunks:
  "audioChunks s = [] \<Longrightarrow>
     onstop s = (s\<lparr>recordingStatus := str ''No audio data captured. Please try again.''\<rparr>, False)
     \<and> trace (fst (onstop s)) = trace s
     \<and> notesHistory (fst (onstop s)) = notesHistory s
     \<and> storedHistory (fst (onstop s)) = storedHistory s"
  by (simp add: onstop_def)

theorem onstop_without_chunks_witness:
  "(let s = run (\<lambda>x. x) recording (constructor freshBrowser)
    in audioChunks s = []
       \<and> recordingStatus s = str ''Processing audio...''
       \<and> onstop s = (s\<lparr>recordingStatus := str ''No audio data captured. Please try again.''\<rparr>, False)
       \<and> trace (fst (onstop s)) = trace s
       \<and> notesHistory (fst (onstop s)) = notesHistory s
       \<and> storedHistory (fst (onstop s)) = storedHistory s)"
proof -
  let ?s = "run (\<lambda>x. x) recording (constructor freshBrowser)"
  have a: "audioChunks ?s = []" and b: "recordingStatus ?s = str ''Processing audio...''"
    unfolding recording_def run.simps step.simps constructor_fresh
    by (simp_all add: freshBrowser_def toggleRecording_def startRecording_begin_def
          startRecording_resume_def stopRecording_def ondataavailable_def)
  from onstop_without_chunks [OF a] a b show ?thesis unfolding Let_def by blast
qed

section \<open>The auto-save timer\<close>

lemma timerInv_frame: "timerState s' = timerState s \<Longrightarrow> timerInv s' = timerInv s"
  by (simp add: timerState_def timerInv_def)

lemma timerInv_timers:
  assumes "timerInv s"
  shows "timers s = [] \<or> (\<exists>h due. timers s = [(h, due)] \<and> autoSaveTimeoutId s = Some h \<and> now s < due \<and> 0 < h)"
proof (cases "timers s")
  case Nil
  then show ?thesis by simp
next
  case (Cons t ts)
  with assms have "ts = []" by (simp add: timerInv_def)
  with Cons assms show ?thesis by (cases t) (auto simp: timerInv_def)
qed

lemma update_timerState [simp]: "timerState (updateCurrentNoteFromDOM s) = timerState s"
  by (simp add: timerState_def)

lemma saveHistory_timerState [simp]: "timerState (saveHistory s) = timerState s"
  by (simp add: timerState_def saveHistory_def Let_def)

lemma commit_timerState [simp]: "timerState (saveCurrentNoteToHistory s) = timerState s"
proof (cases "currentNote (updateCurrentNoteFromDOM s)")
  case None
  then have "currentNote s = None" by simp
  then show ?thesis by (simp add: commit_None timerState_def)
next
  case (Some n)
  then have c: "currentNote s \<noteq> None" by (metis update_current_None option.distinct(1))
  show ?thesis
  proof (cases "isEffectivelyEmpty n")
    case True
    with Some show ?thesis by (simp add: commit_empty) (simp add: timerState_def)
  next
    case False
    with Some c show ?thesis
      by (auto simp add: saveCurrentNoteToHistory_def Let_def timerState_def saveHistory_def
            split: option.splits)
  qed
qed

lemma timerInv_scheduleAutoSave: "timerInv s \<Longrightarrow> timerInv (scheduleAutoSave s)"
proof -
  assume i: "timerInv s"
  from timerInv_timers [OF i] show ?thesis
  proof
    assume "timers s = []"
    with i show ?thesis
      by (auto simp: scheduleAutoSave_def timerInv_def truthyHandle_def clearTimeout_def
            setTimeout_def AUTO_SAVE_DELAY_def Let_def split: option.splits)
  next
    assume "\<exists>h due. timers s = [(h, due)] \<and> autoSaveTimeoutId s = Some h \<and> now s < due \<and> 0 < h"
    then obtain h due where "timers s = [(h, due)]" "autoSaveTimeoutId s = Some h" "0 < h" by blast
    with i show ?thesis
      by (auto simp: scheduleAutoSave_def timerInv_def truthyHandle_def clearTimeout_def
            setTimeout_def AUTO_SAVE_DELAY_def Let_def split: option.splits)
  qed
qed

lemma timerInv_saveDraft: "timerInv s \<Longrightarrow> timerInv (saveDraft im s)"
proof -
  assume i: "timerInv s"
  from timerInv_timers [OF i] show ?thesis
  proof
    assume "timers s = []"
    with i show ?thesis
      by (auto simp: saveDraft_def timerInv_def truthyHandle_def clearTimeout_def Let_def
            split: option.splits)
  next
    assume "\<exists>h due. timers s = [(h, due)] \<and> autoSaveTimeoutId s = Some h \<and> now s < due \<and> 0 < h"
    then obtain h due where "timers s = [(h, due)]" "autoSaveTimeoutId s = Some h" "0 < h" by blast
    with i show ?thesis
      by (auto simp: saveDraft_def timerInv_def truthyHandle_def clearTimeout_def Let_def
            split: option.splits)
  qed
qed

lemma populate_timerState [simp]: "timerState (populateFromCurrentNote s) = timerState s"
  by (simp add: timerState_def populateFromCurrentNote_def Let_def split: option.splits)

lemma timerInv_fire: "timerInv s \<Longrightarrow> t \<in> set (timers s) \<Longrightarrow> timers (fire t s) = [] \<and> timerInv (fire t s)"
proof -
  assume i: "timerInv s" and t: "t \<in> set (timers s)"
  from timerInv_timers [OF i] t obtain h due where
    ts: "timers s = [(h, due)]" "autoSaveTimeoutId s = Some h" "0 < h" "t = (h, due)" by auto
  let ?s1 = "s\<lparr>now := max (now s) (snd t), timers := removeAll t (timers s)\<rparr>"
  have f: "fire t s = saveDraft False ?s1" using t by (simp add: fire_def)
  have i1: "timerInv ?s1" using i ts by (simp add: timerInv_def)
  have e: "timers (saveDraft False ?s1) = []"
    using ts by (auto simp: saveDraft_def truthyHandle_def clearTimeout_def Let_def split: option.splits)
  from i1 have "timerInv (saveDraft False ?s1)" by (rule timerInv_saveDraft)
  with e f show ?thesis by simp
qed

lemma timerInv_elapse: "timerInv s \<Longrightarrow> timerInv (elapse d s)"
proof -
  assume i: "timerInv s"
  from timerInv_timers [OF i] show ?thesis
  proof
    assume "timers s = []"
    with i show ?thesis by (simp add: elapse_def timerInv_def)
  next
    assume "\<exists>h due. timers s = [(h, due)] \<and> autoSaveTimeoutId s = Some h \<and> now s < due \<and> 0 < h"
    then obtain h due where ts: "timers s = [(h, due)]" "autoSaveTimeoutId s = Some h" "now s < due" by blast
    show ?thesis
    proof (cases "due \<le> now s + d")
      case True
      then have e: "elapse d s = (fire (h, due) s)\<lparr>now := now s + d\<rparr>"
        using ts by (simp add: elapse_def)
      from timerInv_fire [OF i, of "(h, due)"] ts
      have "timers (fire (h, due) s) = []" "timerInv (fire (h, due) s)" by simp_all
      then show ?thesis unfolding e by (simp add: timerInv_def)
    next
      case False
      then have "elapse d s = s\<lparr>now := now s + d\<rparr>" using ts by (simp add: elapse_def)
      with i ts False show ?thesis by (simp add: timerInv_def)
    qed
  qed
qed

lemma timerInv_createNewNote: "timerInv s \<Longrightarrow> timerInv (createNewNote sc s)"
proof -
  assume i: "timerInv s"
  define s1 where "s1 = (if sc then saveCurrentNoteToHistory s else s)"
  have 1: "timerInv s1" using i timerInv_frame [OF commit_timerState, of s] by (simp add: s1_def)
  have "createNewNote sc s = saveDraft True
     (let s2 = s1\<lparr>currentNote := Some \<lparr>note_id = str ''note_'' @ decimal (now s1), title = [],
                     rawTranscription = [], polishedNote = [], elaboratedNote = [],
                     timestamp = now s1\<rparr>\<rparr>;
          s3 = s2\<lparr>elaboratedNoteEl := (elaboratedNoteEl s2)
                     \<lparr>content := serialise s2 (js_or (placeholderAttr (elaboratedNoteEl s2)) []),
                      placeholderActive := True\<rparr>\<rparr>;
          s4 = s3\<lparr>polishedNoteEl := (polishedNoteEl s3)
                     \<lparr>content := serialise s3 (js_or (placeholderAttr (polishedNoteEl s3)) []),
                      placeholderActive := True\<rparr>\<rparr>;
          s5 = s4\<lparr>editorTitle := (editorTitle s4)
                     \<lparr>content := js_or (placeholderAttr (editorTitle s4)) (str ''Untitled Note''),
                      placeholderActive := True\<rparr>\<rparr>;
          s6 = s5\<lparr>recordingStatus := str ''Ready to record''\<rparr>
      in (if isRecording s6 then s6\<lparr>isRecording := False\<rparr> else s6))"
    by (simp add: createNewNote_def s1_def Let_def)
  moreover have "timerInv (let s2 = s1\<lparr>currentNote := Some \<lparr>note_id = str ''note_'' @ decimal (now s1), title = [],
                     rawTranscription = [], polishedNote = [], elaboratedNote = [],
                     timestamp = now s1\<rparr>\<rparr>;
          s3 = s2\<lparr>elaboratedNoteEl := (elaboratedNoteEl s2)
                     \<lparr>content := serialise s2 (js_or (placeholderAttr (elaboratedNoteEl s2)) []),
                      placeholderActive := True\<rparr>\<rparr>;
          s4 = s3\<lparr>polishedNoteEl := (polishedNoteEl s3)
                     \<lparr>content := serialise s3 (js_or (placeholderAttr (polishedNoteEl s3)) []),
                      placeholderActive := True\<rparr>\<rparr>;
          s5 = s4\<lparr>editorTitle := (editorTitle s4)
                     \<lparr>content := js_or (placeholderAttr (editorTitle s4)) (str ''Untitled Note''),
                      placeholderActive := True\<rparr>\<rparr>;
          s6 = s5\<lparr>recordingStatus := str ''Ready to record''\<rparr>
      in (if isRecording s6 then s6\<lparr>isRecording := False\<rparr> else s6))"
    using 1 by (simp add: timerInv_def Let_def)
  ultimately show ?thesis by (simp add: timerInv_saveDraft)
qed

lemma timerInv_loadNote: "timerInv s \<Longrightarrow> timerInv (loadNote k s)"
proof (cases "find (\<lambda>m. note_id m = k) (notesHistory s)")
  case None
  then show "timerInv s \<Longrightarrow> ?thesis" by (simp add: loadNote_def)
next
  case (Some m)
  assume i: "timerInv s"
  have 1: "timerInv (saveCurrentNoteToHistory s)"
    using i timerInv_frame [OF commit_timerState, of s] by simp
  then have 2: "timerInv ((saveCurrentNoteToHistory s)\<lparr>currentNote := Some m\<rparr>)"
    by (simp add: timerInv_def)
  have 3: "timerInv (populateFromCurrentNote ((saveCurrentNoteToHistory s)\<lparr>currentNote := Some m\<rparr>))"
    using 2 timerInv_frame [OF populate_timerState] by simp
  from 3 Some show ?thesis by (simp add: loadNote_def Let_def timerInv_saveDraft)
qed

lemma timerInv_constructor: "timerInv (constructor b)"
proof -
  let ?s0 = "b\<lparr>currentNote := None, notesHistory := [], mediaRecorder := False,
                 isRecording := False, audioChunks := [], autoSaveTimeoutId := None,
                 timers := [], nextTimerId := 1\<rparr>"
  let ?s1 = "loadHistory ?s0"
  have t: "timers ?s1 = []" "autoSaveTimeoutId ?s1 = None" "nextTimerId ?s1 = 1"
    by (simp_all add: loadHistory_def split: slot.splits)
  show ?thesis
  proof (cases "snd (loadDraft ?s1)")
    case True
    then obtain d where d: "storedDraft ?s1 = Holds d"
      by (auto simp: loadDraft_def split: slot.splits)
    have "timerInv (populateFromCurrentNote (?s1\<lparr>currentNote := Some d\<rparr>))"
      using t by (simp add: timerInv_frame [OF populate_timerState]) (simp add: timerInv_def)
    with d show ?thesis
      by (simp add: constructor_def Let_def split_def loadDraft_def timerInv_def)
  next
    case False
    then have l: "loadDraft ?s1 = (?s1, False)"
      by (auto simp: loadDraft_def split: slot.splits)
    have "timerInv (saveDraft True
     (let s1 = ?s1; s2 = s1\<lparr>currentNote := Some \<lparr>note_id = str ''note_'' @ decimal (now s1), title = [],
                     rawTranscription = [], polishedNote = [], elaboratedNote = [],
                     timestamp = now s1\<rparr>\<rparr>;
          s3 = s2\<lparr>elaboratedNoteEl := (elaboratedNoteEl s2)
                     \<lparr>content := serialise s2 (js_or (placeholderAttr (elaboratedNoteEl s2)) []),
                      placeholderActive := True\<rparr>\<rparr>;
          s4 = s3\<lparr>polishedNoteEl := (polishedNoteEl s3)
                     \<lparr>content := serialise s3 (js_or (placeholderAttr (polishedNoteEl s3)) []),
                      placeholderActive := True\<rparr>\<rparr>;
          s5 = s4\<lparr>editorTitle := (editorTitle s4)
                     \<lparr>content := js_or (placeholderAttr (editorTitle s4)) (str ''Untitled Note''),
                      placeholderActive := True\<rparr>\<rparr>;
          s6 = s5\<lparr>recordingStatus := str ''Ready to record''\<rparr>
      in (if isRecording s6 then s6\<lparr>isRecording := False\<rparr> else s6)))"
      using t by (intro timerInv_saveDraft) (simp add: timerInv_def Let_def)
    then have "timerInv (createNewNote False ?s1)"
      by (simp add: createNewNote_def Let_def)
    with l show ?thesis by (simp add: constructor_def Let_def timerInv_def)
  qed
qed

lemma timerInv_upd [simp]:
  "timerInv (s\<lparr>polishedNoteEl := a\<rparr>) = timerInv s"
  "timerInv (s\<lparr>elaboratedNoteEl := a\<rparr>) = timerInv s"
  "timerInv (s\<lparr>editorTitle := a\<rparr>) = timerInv s"
  "timerInv (s\<lparr>trace := b\<rparr>) = timerInv s"
  "timerInv (s\<lparr>recordingStatus := c\<rparr>) = timerInv s"
  by (simp_all add: timerInv_def)

lemma timerInv_setCurrent: "timerInv s \<Longrightarrow> timerInv (s\<lparr>currentNote := Some n\<rparr>)"
  by (simp add: timerInv_def)

lemma timerInv_polish_begin: "timerInv s \<Longrightarrow> timerInv (getPolishedNote_begin s)"
  by (simp add: getPolishedNote_begin_def)

lemma timerInv_elaborate_begin: "timerInv s \<Longrightarrow> timerInv (getElaboratedNote_begin s)"
  by (simp add: getElaboratedNote_begin_def)

lemma timerInv_polish_resume: "timerInv s \<Longrightarrow> timerInv (getPolishedNote_resume marked r s)"
proof -
  assume i: "timerInv s"
  show ?thesis
  proof (cases r)
    case (Rejected msg)
    then show ?thesis using i by (simp add: getPolishedNote_resume_def)
  next
    case (Fulfilled tt)
    show ?thesis
    proof (cases tt)
      case None
      with Fulfilled show ?thesis using i by (simp add: getPolishedNote_resume_def)
    next
      case (Some t1)
      show ?thesis
      proof (cases "t1 = []")
        case True
        with Some Fulfilled show ?thesis using i by (simp add: getPolishedNote_resume_def)
      next
        case False
        from i obtain n where n: "currentNote s = Some n" by (auto simp: timerInv_def)
        define e1 where "e1 = (polishedNoteEl s)\<lparr>content := serialise s (marked t1)\<rparr>"
        define e2 where "e2 = (if trim t1 \<noteq> [] then e1\<lparr>placeholderActive := False\<rparr>
                               else e1\<lparr>content := serialise s (js_or (placeholderAttr e1) []),
                                       placeholderActive := True\<rparr>)"
        have "getPolishedNote_resume marked r s =
                (let s' = scheduleAutoSave (s\<lparr>polishedNoteEl := e2,
                            editorTitle := inferTitle t1 (editorTitle s),
                            currentNote := Some (n\<lparr>polishedNote := marked t1\<rparr>)\<rparr>)
                 in s'\<lparr>trace := trace s' @ [Settled Polish]\<rparr>)"
          using False Some Fulfilled n
          by (simp add: getPolishedNote_resume_def Let_def e1_def e2_def)
        moreover have "timerInv (scheduleAutoSave (s\<lparr>polishedNoteEl := e2,
                            editorTitle := inferTitle t1 (editorTitle s),
                            currentNote := Some (n\<lparr>polishedNote := marked t1\<rparr>)\<rparr>))"
          using i by (intro timerInv_scheduleAutoSave timerInv_setCurrent) simp
        ultimately show ?thesis by (simp add: Let_def)
      qed
    qed
  qed
qed

lemma timerInv_elaborate_resume: "timerInv s \<Longrightarrow> timerInv (getElaboratedNote_resume marked r s)"
proof -
  assume i: "timerInv s"
  show ?thesis
  proof (cases r)
    case (Rejected msg)
    then show ?thesis using i by (simp add: getElaboratedNote_resume_def)
  next
    case (Fulfilled tt)
    show ?thesis
    proof (cases tt)
      case None
      with Fulfilled show ?thesis using i by (simp add: getElaboratedNote_resume_def)
    next
      case (Some t1)
      show ?thesis
      proof (cases "t1 = []")
        case True
        with Some Fulfilled show ?thesis using i by (simp add: getElaboratedNote_resume_def)
      next
        case False
        from i obtain n where n: "currentNote s = Some n" by (auto simp: timerInv_def)
        define e1 where "e1 = (elaboratedNoteEl s)\<lparr>content := serialise s (marked t1)\<rparr>"
        define e2 where "e2 = (if trim t1 \<noteq> [] then e1\<lparr>placeholderActive := False\<rparr>
                               else e1\<lparr>content := serialise s (js_or (placeholderAttr e1) []),
                                       placeholderActive := True\<rparr>)"
        have "getElaboratedNote_resume marked r s =
                (let s' = scheduleAutoSave (s\<lparr>elaboratedNoteEl := e2,
                            currentNote := Some (n\<lparr>elaboratedNote := marked t1\<rparr>)\<rparr>)
                 in s'\<lparr>trace := trace s' @ [Settled Elaborate]\<rparr>)"
          using False Some Fulfilled n
          by (simp add: getElaboratedNote_resume_def Let_def e1_def e2_def)
        moreover have "timerInv (scheduleAutoSave (s\<lparr>elaboratedNoteEl := e2,
                            currentNote := Some (n\<lparr>elaboratedNote := marked t1\<rparr>)\<rparr>))"
          using i by (intro timerInv_scheduleAutoSave timerInv_setCurrent) simp
        ultimately show ?thesis by (simp add: Let_def)
      qed
    qed
  qed
qed

lemma timerInv_commit: "timerInv s \<Longrightarrow> timerInv (saveCurrentNoteToHistory s)"
  using timerInv_frame [OF commit_timerState, of s] by simp

lemma timerInv_finish: "timerInv s \<Longrightarrow> timerInv (getTranscription_finish s)"
proof -
  assume "timerInv s"
  then have "timerInv (s\<lparr>recordingStatus := str ''Notes complete. Ready for next recording.''\<rparr>)"
    by (simp add: timerInv_def)
  then show ?thesis unfolding getTranscription_finish_def by (rule timerInv_commit)
qed

lemma timerInv_resume: "timerInv s \<Longrightarrow> timerInv (fst (getTranscription_resume r s))"
proof -
  assume i: "timerInv s"
  have a: "timerInv (saveCurrentNoteToHistory (s\<lparr>recordingStatus := x, polishedNoteEl := e\<rparr>))" for x e
    using i by (intro timerInv_commit) simp
  show ?thesis
  proof (cases r)
    case (Rejected msg)
    then show ?thesis by (simp add: getTranscription_resume_def a)
  next
    case (Fulfilled tt)
    show ?thesis
    proof (cases tt)
      case None
      with Fulfilled show ?thesis by (simp add: getTranscription_resume_def a)
    next
      case (Some t1)
      from i obtain n where n: "currentNote s = Some n" by (auto simp: timerInv_def)
      show ?thesis
      proof (cases "t1 = []")
        case True
        with Some Fulfilled n show ?thesis by (simp add: getTranscription_resume_def a)
      next
        case False
        let ?s2 = "s\<lparr>currentNote := Some (n\<lparr>rawTranscription := trim (rawTranscription n @ str '' '' @ t1)\<rparr>),
                      recordingStatus := str ''Transcription complete. Generating notes...''\<rparr>"
        have "timerInv ?s2" using i by (simp add: timerInv_setCurrent)
        then have 3: "timerInv (getElaboratedNote_begin (getPolishedNote_begin ?s2))"
          by (intro timerInv_elaborate_begin timerInv_polish_begin)
        then have 4: "timerInv (getTranscription_finish (getElaboratedNote_begin (getPolishedNote_begin ?s2)))"
          by (rule timerInv_finish)
        from 3 4 False Some Fulfilled n show ?thesis
          by (simp add: getTranscription_resume_def Let_def)
      qed
    qed
  qed
qed

lemma timerInv_step: "timerInv s \<Longrightarrow> timerInv (step marked e s)"
proof (cases e)
  case PageLoad
  then show ?thesis by (simp add: timerInv_constructor)
next
  case ClickNew
  then show "timerInv s \<Longrightarrow> ?thesis" by (simp add: timerInv_createNewNote)
next
  case (ClickHistoryItem k)
  then show "timerInv s \<Longrightarrow> ?thesis" by (simp add: timerInv_loadNote)
next
  case (Input tg v)
  assume "timerInv s"
  then have "timerInv (updateElement tg (\<lambda>el. el\<lparr>content := v\<rparr>) s)"
    by (simp add: timerInv_def updateElement_def split: target.splits)
  with Input show ?thesis by (simp add: onInput_def timerInv_scheduleAutoSave)
next
  case (FocusBlur tg v a)
  then show "timerInv s \<Longrightarrow> ?thesis"
    by (simp add: timerInv_def updateElement_def split: target.splits)
next
  case BeforeUnload
  then show "timerInv s \<Longrightarrow> ?thesis" by (simp add: timerInv_saveDraft)
next
  case (Elapse d)
  then show "timerInv s \<Longrightarrow> ?thesis" by (simp add: timerInv_elapse)
next
  case (Quota f)
  then show "timerInv s \<Longrightarrow> ?thesis" by (simp add: timerInv_def)
next
  case ClickRecord
  then show "timerInv s \<Longrightarrow> ?thesis"
    by (simp add: timerInv_def toggleRecording_def startRecording_begin_def stopRecording_def)
next
  case (UserMedia r)
  then show "timerInv s \<Longrightarrow> ?thesis"
    by (simp add: timerInv_def startRecording_resume_def Let_def split: option.splits prod.splits)
next
  case (DataAvailable sz)
  then show "timerInv s \<Longrightarrow> ?thesis" by (simp add: timerInv_def ondataavailable_def)
next
  case RecorderStop
  then show "timerInv s \<Longrightarrow> ?thesis"
    by (simp add: timerInv_def onstop_def processAudio_begin_def)
next
  case (ReaderDone r)
  then show "timerInv s \<Longrightarrow> ?thesis"
    by (simp add: timerInv_def processAudio_resume_def getTranscription_begin_def split: outcome.splits)
next
  case (TranscriptionDone r)
  then show "timerInv s \<Longrightarrow> ?thesis" by (simp add: timerInv_resume)
next
  case (PolishDone r)
  then show "timerInv s \<Longrightarrow> ?thesis" by (simp add: timerInv_polish_resume)
next
  case (ElaborateDone r)
  then show "timerInv s \<Longrightarrow> ?thesis" by (simp add: timerInv_elaborate_resume)
next
  case EnrichmentDone
  then show "timerInv s \<Longrightarrow> ?thesis" by (simp add: timerInv_finish)
qed

lemma reachable_timerInv: "reachable marked s \<Longrightarrow> timerInv s"
  by (induction rule: reachable.induct) (simp_all add: timerInv_constructor timerInv_step)

lemma scheduleAutoSave_timers:
  assumes "timerInv s"
  shows "timers (scheduleAutoSave s) = [(nextTimerId s, now s + AUTO_SAVE_DELAY)]"
    and "trace (scheduleAutoSave s) = trace s"
    and "now (scheduleAutoSave s) = now s"
proof -
  from timerInv_timers [OF assms]
  show "timers (scheduleAutoSave s) = [(nextTimerId s, now s + AUTO_SAVE_DELAY)]"
  proof
    assume "timers s = []"
    then show ?thesis
      by (simp add: scheduleAutoSave_def setTimeout_def Let_def clearTimeout_def split: option.splits)
  next
    assume "\<exists>h due. timers s = [(h, due)] \<and> autoSaveTimeoutId s = Some h \<and> now s < due \<and> 0 < h"
    then obtain h due where "timers s = [(h, due)]" "autoSaveTimeoutId s = Some h" "0 < h" by blast
    then show ?thesis
      by (simp add: scheduleAutoSave_def setTimeout_def Let_def clearTimeout_def truthyHandle_def)
  qed
  show "trace (scheduleAutoSave s) = trace s"
    by (simp add: scheduleAutoSave_def setTimeout_def Let_def clearTimeout_def split: option.splits)
  show "now (scheduleAutoSave s) = now s"
    by (simp add: scheduleAutoSave_def setTimeout_def Let_def clearTimeout_def split: option.splits)
qed

lemma onInput_facts:
  assumes "timerInv s"
  shows "timers (onInput tg v s) = [(nextTimerId s, now s + AUTO_SAVE_DELAY)]"
    and "trace (onInput tg v s) = trace s"
    and "now (onInput tg v s) = now s"
    and "timerInv (onInput tg v s)"
proof -
  let ?s1 = "updateElement tg (\<lambda>el. el\<lparr>content := v\<rparr>) s"
  have i1: "timerInv ?s1" using assms by (simp add: updateElement_def split: target.splits)
  have e: "nextTimerId ?s1 = nextTimerId s" "now ?s1 = now s" "trace ?s1 = trace s"
    by (simp_all add: updateElement_def split: target.splits)
  from scheduleAutoSave_timers [OF i1] e
  show "timers (onInput tg v s) = [(nextTimerId s, now s + AUTO_SAVE_DELAY)]"
    and "trace (onInput tg v s) = trace s"
    and "now (onInput tg v s) = now s"
    by (simp_all add: onInput_def)
  from i1 show "timerInv (onInput tg v s)"
    unfolding onInput_def by (rule timerInv_scheduleAutoSave)
qed

lemma elapse_before_due:
  "timers s = [(h, due)] \<Longrightarrow> now s + d < due \<Longrightarrow> elapse d s = s\<lparr>now := now s + d\<rparr>"
  by (simp add: elapse_def)

lemma saveDraft_trace:
  "currentNote s \<noteq> None \<Longrightarrow> trace (saveDraft im s) = trace s @ [SetItemDraft (now s)]"
  by (auto simp: saveDraft_def Let_def clearTimeout_def split: option.splits)

lemma elapse_at_due:
  assumes "timerInv s" and "timers s = [(h, due)]" and "due \<le> now s + d"
  shows "trace (elapse d s) = trace s @ [SetItemDraft due]"
proof -
  from assms have n: "now s < due" and c: "currentNote s \<noteq> None"
    by (simp_all add: timerInv_def)
  have "elapse d s = (fire (h, due) s)\<lparr>now := now s + d\<rparr>"
    using assms by (simp add: elapse_def)
  moreover have "fire (h, due) s = saveDraft False (s\<lparr>now := due, timers := []\<rparr>)"
    using assms(2) n by (simp add: fire_def max_def)
  ultimately show ?thesis using c by (simp add: saveDraft_trace)
qed

lemma update_idem: "updateCurrentNoteFromDOM (updateCurrentNoteFromDOM s) = updateCurrentNoteFromDOM s"
  by (cases "currentNote s") (simp_all add: updateCurrentNoteFromDOM_def Let_def)

lemma saveDraft_True_facts:
  assumes "currentNote s \<noteq> None"
  shows "timers (saveDraft True s) = timers s"
    and "autoSaveTimeoutId (saveDraft True s) = autoSaveTimeoutId s"
    and "now (saveDraft True s) = now s"
    and "storageFull (saveDraft True s) = storageFull s"
    and "currentNote (saveDraft True s) = currentNote (updateCurrentNoteFromDOM s)"
    and "editorTitle (saveDraft True s) = editorTitle s"
    and "polishedNoteEl (saveDraft True s) = polishedNoteEl s"
    and "elaboratedNoteEl (saveDraft True s) = elaboratedNoteEl s"
    and "\<not> storageFull s \<Longrightarrow> storedDraft (saveDraft True s) = (case currentNote (updateCurrentNoteFromDOM s) of None \<Rightarrow> storedDraft s | Some n \<Rightarrow> Holds n)"
  using assms by (auto simp: saveDraft_def Let_def split: option.splits)

lemma update_cong:
  "currentNote s' = currentNote s \<Longrightarrow> editorTitle s' = editorTitle s \<Longrightarrow> polishedNoteEl s' = polishedNoteEl s
   \<Longrightarrow> elaboratedNoteEl s' = elaboratedNoteEl s
   \<Longrightarrow> currentNote (updateCurrentNoteFromDOM s') = currentNote (updateCurrentNoteFromDOM s)"
  by (simp add: updateCurrentNoteFromDOM_def Let_def split: option.splits)

lemma saveDraft_False_stored:
  assumes "currentNote s = Some m" and "\<not> storageFull s"
  shows "storedDraft (saveDraft False s) = (case currentNote (updateCurrentNoteFromDOM s) of None \<Rightarrow> storedDraft s | Some n \<Rightarrow> Holds n)"
proof -
  have "currentNote (updateCurrentNoteFromDOM (s\<lparr>timers := a, autoSaveTimeoutId := b\<rparr>)) = currentNote (updateCurrentNoteFromDOM s)" for a b
    by (rule update_cong) simp_all
  then show ?thesis using assms
    by (auto simp: saveDraft_def Let_def clearTimeout_def split: option.splits)
qed

lemma onInput_store:
  "storedDraft (onInput tg v s) = storedDraft s"
  "storageFull (onInput tg v s) = storageFull s"
  by (simp_all add: onInput_def scheduleAutoSave_def setTimeout_def Let_def clearTimeout_def
        updateElement_def split: option.splits target.splits)

lemma second_input_state:
  "currentNote (updateCurrentNoteFromDOM
      (onInput Title (str ''ab'') (elapse 500 (onInput Title (str ''a'') (constructor freshBrowser)))))
     = Some \<lparr>note_id = str ''note_0'', title = str ''ab'', rawTranscription = [],
              polishedNote = [], elaboratedNote = [], timestamp = 0\<rparr>"
  "storedDraft (constructor freshBrowser)
     = Holds \<lparr>note_id = str ''note_0'', title = [], rawTranscription = [],
               polishedNote = [], elaboratedNote = [], timestamp = 0\<rparr>"
  "\<not> storageFull (constructor freshBrowser)"
  unfolding constructor_fresh
  by (simp_all add: eval_defs)

text \<open>
  Claim C8. The draft save is debounced on the trailing edge: an edit of the title or of a
  region saves nothing by itself and queues one save for \<^verbatim>\<open>AUTO_SAVE_DELAY\<close> later; a
  second edit before that time replaces the queued save by one that is due the delay after
  the second edit; and when that time has passed, exactly one draft save has happened, at
  the time of the second edit plus the delay. The stored draft is as it was until then,
  and where storage accepts the write, it then holds the current note, refreshed from the
  page as the second edit left it.
\<close>

theorem debounce_trailing_edge:
  assumes "reachable marked s" and "d1 < AUTO_SAVE_DELAY" and "AUTO_SAVE_DELAY \<le> d2"
  shows "trace (onInput tg1 v1 s) = trace s
       \<and> timers (onInput tg1 v1 s) = [(nextTimerId s, now s + AUTO_SAVE_DELAY)]
       \<and> timers (onInput tg2 v2 (elapse d1 (onInput tg1 v1 s)))
           = [(nextTimerId s + 1, now s + d1 + AUTO_SAVE_DELAY)]
       \<and> trace (elapse d2 (onInput tg2 v2 (elapse d1 (onInput tg1 v1 s))))
           = trace s @ [SetItemDraft (now s + d1 + AUTO_SAVE_DELAY)]
       \<and> storedDraft (onInput tg1 v1 s) = storedDraft s
       \<and> storedDraft (onInput tg2 v2 (elapse d1 (onInput tg1 v1 s))) = storedDraft s
       \<and> (\<not> storageFull s \<longrightarrow>
            (\<exists>n. currentNote (updateCurrentNoteFromDOM
                       (onInput tg2 v2 (elapse d1 (onInput tg1 v1 s)))) = Some n
                 \<and> storedDraft (elapse d2 (onInput tg2 v2 (elapse d1 (onInput tg1 v1 s))))
                     = Holds n))"
proof -
  let ?s1 = "onInput tg1 v1 s"
  let ?s2 = "elapse d1 ?s1"
  let ?s3 = "onInput tg2 v2 ?s2"
  let ?due = "now s + d1 + AUTO_SAVE_DELAY"
  from assms(1) have i: "timerInv s" by (rule reachable_timerInv)
  note f1 = onInput_facts [OF i, of tg1 v1]
  have n1: "nextTimerId ?s1 = nextTimerId s + 1"
    by (simp add: onInput_def scheduleAutoSave_def setTimeout_def Let_def clearTimeout_def
          updateElement_def split: option.splits target.splits)
  have e2: "?s2 = ?s1\<lparr>now := now s + d1\<rparr>"
    using elapse_before_due [OF f1(1), of d1] assms(2) f1(3) by simp
  have i2: "timerInv ?s2" using f1(4) by (rule timerInv_elapse)
  note f3 = onInput_facts [OF i2, of tg2 v2]
  have t3: "timers ?s3 = [(nextTimerId s + 1, ?due)]"
    using f3(1) n1 unfolding e2 by simp
  have tr3: "trace ?s3 = trace s" using f3(2) f1(2) unfolding e2 by simp
  have now3: "now ?s3 = now s + d1" using f3(3) unfolding e2 by simp
  have tr4: "trace (elapse d2 ?s3) = trace ?s3 @ [SetItemDraft ?due]"
    using f3(4) t3 by (rule elapse_at_due) (simp add: now3 assms(3))
  have sd1: "storedDraft ?s1 = storedDraft s" by (rule onInput_store)
  have "storedDraft ?s2 = storedDraft ?s1" "storageFull ?s2 = storageFull ?s1"
    unfolding e2 by simp_all
  then have sd3: "storedDraft ?s3 = storedDraft s" and sf3: "storageFull ?s3 = storageFull s"
    by (simp_all add: onInput_store)
  have st: "\<exists>n. currentNote (updateCurrentNoteFromDOM ?s3) = Some n
               \<and> storedDraft (elapse d2 ?s3) = Holds n" if nf: "\<not> storageFull s"
  proof -
    let ?s4 = "?s3\<lparr>now := ?due, timers := []\<rparr>"
    from f3(4) obtain m where m: "currentNote ?s3 = Some m" by (auto simp: timerInv_def)
    then obtain n where n: "currentNote (updateCurrentNoteFromDOM ?s3) = Some n"
      by (metis not_Some_eq option.distinct(1) update_current_None)
    have e: "elapse d2 ?s3 = (fire (nextTimerId s + 1, ?due) ?s3)\<lparr>now := now ?s3 + d2\<rparr>"
      using t3 now3 assms(3) by (simp add: elapse_def)
    have fi: "fire (nextTimerId s + 1, ?due) ?s3 = saveDraft False ?s4"
      using t3 now3 by (simp add: fire_def max_def)
    have c4: "currentNote ?s4 = Some m" using m by simp
    have "currentNote (updateCurrentNoteFromDOM ?s4) = currentNote (updateCurrentNoteFromDOM ?s3)"
      by (rule update_cong) simp_all
    then have u4: "currentNote (updateCurrentNoteFromDOM ?s4) = Some n" using n by simp
    have "storedDraft (saveDraft False ?s4) = Holds n"
      using saveDraft_False_stored [OF c4] u4 sf3 nf by simp
    with e fi n show ?thesis by simp
  qed
  from f1(1,2) t3 tr3 tr4 sd1 sd3 st show ?thesis by simp
qed

theorem debounce_trailing_edge_witness:
  "(let s = constructor freshBrowser
    in reachable (\<lambda>x. x) s \<and> (500::nat) < AUTO_SAVE_DELAY \<and> AUTO_SAVE_DELAY \<le> (1500::nat)
       \<and> \<not> storageFull s
       \<and> trace (onInput Title (str ''a'') s) = trace s
       \<and> timers (onInput Title (str ''a'') s) = [(1, 1500)]
       \<and> timers (onInput Title (str ''ab'') (elapse 500 (onInput Title (str ''a'') s))) = [(2, 2000)]
       \<and> trace (elapse 1500 (onInput Title (str ''ab'') (elapse 500 (onInput Title (str ''a'') s))))
           = trace s @ [SetItemDraft 2000]
       \<and> storedDraft (onInput Title (str ''ab'') (elapse 500 (onInput Title (str ''a'') s)))
           = Holds \<lparr>note_id = str ''note_0'', title = [], rawTranscription = [],
                    polishedNote = [], elaboratedNote = [], timestamp = 0\<rparr>
       \<and> storedDraft (elapse 1500 (onInput Title (str ''ab'') (elapse 500 (onInput Title (str ''a'') s))))
           = Holds \<lparr>note_id = str ''note_0'', title = str ''ab'', rawTranscription = [],
                    polishedNote = [], elaboratedNote = [], timestamp = 0\<rparr>)"
proof -
  let ?s = "constructor freshBrowser"
  have r: "reachable (\<lambda>x. x) ?s" using reachable_session [of "\<lambda>x. x" "[]"] by simp
  have d: "(500::nat) < AUTO_SAVE_DELAY" "AUTO_SAVE_DELAY \<le> (1500::nat)"
    by (simp_all add: AUTO_SAVE_DELAY_def)
  have n: "now ?s = 0" "nextTimerId ?s = 1"
    unfolding constructor_fresh by (simp_all add: freshBrowser_def)
  from debounce_trailing_edge [OF r d, of Title "str ''a''" Title "str ''ab''"] r d
    second_input_state
  show ?thesis unfolding Let_def n by (auto simp add: AUTO_SAVE_DELAY_def)
qed

text \<open>
  Claim C9. While a debounced save is queued, \<^verbatim>\<open>saveDraft(true)\<close> writes the draft and
  leaves the queued callback and its handle as they are; when the callback comes due it
  writes the draft a second time. Where storage accepts the writes, the draft item holds
  the refreshed current note after each of them.
\<close>

theorem immediate_save_keeps_timer:
  assumes "reachable marked s" and "(h, due) \<in> set (timers s)"
  shows "timers (saveDraft True s) = [(h, due)]
       \<and> autoSaveTimeoutId (saveDraft True s) = Some h
       \<and> trace (saveDraft True s) = trace s @ [SetItemDraft (now s)]
       \<and> trace (elapse (due - now s) (saveDraft True s))
           = trace s @ [SetItemDraft (now s), SetItemDraft due]
       \<and> (\<not> storageFull s \<longrightarrow>
            (\<exists>n. currentNote (updateCurrentNoteFromDOM s) = Some n
                 \<and> storedDraft (saveDraft True s) = Holds n
                 \<and> storedDraft (elapse (due - now s) (saveDraft True s)) = Holds n))"
proof -
  let ?s1 = "saveDraft True s"
  from assms(1) have i: "timerInv s" by (rule reachable_timerInv)
  with timerInv_timers [OF i] assms(2)
  have ts: "timers s = [(h, due)]" "autoSaveTimeoutId s = Some h" "now s < due" by auto
  from i obtain m where m: "currentNote s = Some m" by (auto simp: timerInv_def)
  then have c: "currentNote s \<noteq> None" by simp
  note f = saveDraft_True_facts [OF c]
  have i1: "timerInv ?s1" using i by (rule timerInv_saveDraft)
  have t1: "timers ?s1 = [(h, due)]" using f(1) ts by simp
  have a1: "autoSaveTimeoutId ?s1 = Some h" using f(2) ts by simp
  have tr1: "trace ?s1 = trace s @ [SetItemDraft (now s)]" using c by (rule saveDraft_trace)
  have "trace (elapse (due - now s) ?s1) = trace ?s1 @ [SetItemDraft due]"
    using i1 t1 by (rule elapse_at_due) (use f(3) ts in simp)
  then have tr2: "trace (elapse (due - now s) ?s1) = trace s @ [SetItemDraft (now s), SetItemDraft due]"
    using tr1 by simp
  have st: "\<exists>n. currentNote (updateCurrentNoteFromDOM s) = Some n
                 \<and> storedDraft ?s1 = Holds n
                 \<and> storedDraft (elapse (due - now s) ?s1) = Holds n" if nf: "\<not> storageFull s"
  proof -
    from m obtain n where n: "currentNote (updateCurrentNoteFromDOM s) = Some n"
      by (metis c not_Some_eq update_current_None)
    have s1: "storedDraft ?s1 = Holds n" using f(9) [OF nf] n by simp
    have e: "elapse (due - now s) ?s1 = (fire (h, due) ?s1)\<lparr>now := now ?s1 + (due - now s)\<rparr>"
      using t1 f(3) ts by (simp add: elapse_def)
    have fi: "fire (h, due) ?s1 = saveDraft False (?s1\<lparr>now := due, timers := []\<rparr>)"
      using t1 f(3) ts by (simp add: fire_def max_def)
    let ?s2 = "?s1\<lparr>now := due, timers := []\<rparr>"
    have c2: "currentNote ?s2 = Some n" using f(5) n by simp
    have "currentNote (updateCurrentNoteFromDOM ?s2) = currentNote (updateCurrentNoteFromDOM (updateCurrentNoteFromDOM s))"
      by (rule update_cong) (simp_all add: f)
    then have u2: "currentNote (updateCurrentNoteFromDOM ?s2) = Some n" using n by (simp add: update_idem)
    have "storedDraft (saveDraft False ?s2) = Holds n"
      using saveDraft_False_stored [OF c2] u2 f(4) nf by simp
    with e fi s1 n show ?thesis by simp
  qed
  from t1 a1 tr1 tr2 st show ?thesis by blast
qed

theorem immediate_save_keeps_timer_witness:
  "(let s = run (\<lambda>x. x) [Input Title (str ''A'')] (constructor freshBrowser)
    in reachable (\<lambda>x. x) s \<and> (1, 1500) \<in> set (timers s) \<and> \<not> storageFull s
       \<and> timers (saveDraft True s) = [(1, 1500)]
       \<and> autoSaveTimeoutId (saveDraft True s) = Some 1
       \<and> trace (saveDraft True s) = trace s @ [SetItemDraft 0]
       \<and> trace (elapse 1500 (saveDraft True s)) = trace s @ [SetItemDraft 0, SetItemDraft 1500]
       \<and> storedDraft (elapse 1500 (saveDraft True s))
           = Holds \<lparr>note_id = str ''note_0'', title = str ''A'', rawTranscription = [],
                    polishedNote = [], elaboratedNote = [], timestamp = 0\<rparr>)"
proof -
  let ?s = "run (\<lambda>x. x) [Input Title (str ''A'')] (constructor freshBrowser)"
  have r: "reachable (\<lambda>x. x) ?s" by (rule reachable_session)
  have t: "(1, 1500) \<in> set (timers ?s)" and f: "\<not> storageFull ?s"
    unfolding run.simps step.simps constructor_fresh by (simp_all add: eval_defs)
  from immediate_save_keeps_timer [OF r t] f first_input_state(1,3) r t
  show ?thesis unfolding Let_def by auto
qed

section \<open>One run of the pipeline\<close>



lemma scheduleAutoSave_elements [simp]:
  "trace (scheduleAutoSave s) = trace s"
  "polishedNoteEl (scheduleAutoSave s) = polishedNoteEl s"
  "elaboratedNoteEl (scheduleAutoSave s) = elaboratedNoteEl s"
  "editorTitle (scheduleAutoSave s) = editorTitle s"
  "currentNote (scheduleAutoSave s) = currentNote s"
  by (simp_all add: scheduleAutoSave_def setTimeout_def Let_def clearTimeout_def split: option.splits)




lemma dropWhile_id: "xs = [] \<or> \<not> P (hd xs) \<Longrightarrow> dropWhile P xs = xs"
  by (cases xs) auto

lemma trimEnd_last: "trimEnd x = [] \<or> \<not> isWhiteSpace (last (trimEnd x))"
proof -
  have "dropWhile isWhiteSpace (rev x) = [] \<or> \<not> isWhiteSpace (hd (dropWhile isWhiteSpace (rev x)))"
    by (metis hd_dropWhile)
  then show ?thesis by (auto simp: trimEnd_def last_rev)
qed

lemma trimEnd_hd: "\<not> isWhiteSpace (hd y) \<Longrightarrow> trimEnd y \<noteq> [] \<Longrightarrow> hd (trimEnd y) = hd y"
proof -
  assume a: "\<not> isWhiteSpace (hd y)" and b: "trimEnd y \<noteq> []"
  then obtain c cs where y: "y = c # cs" by (cases y) (auto simp: trimEnd_def)
  have "dropWhile isWhiteSpace (rev cs @ [c]) = dropWhile isWhiteSpace (rev cs) @ [c]"
    using a y by (simp add: dropWhile_append3)
  then show ?thesis using y by (simp add: trimEnd_def)
qed

lemma trim_props:
  "trim x = [] \<or> (\<not> isWhiteSpace (hd (trim x)) \<and> \<not> isWhiteSpace (last (trim x)))"
proof (cases "trim x = []")
  case True
  then show ?thesis by simp
next
  case False
  let ?y = "trimStart x"
  from False have y: "?y \<noteq> []" by (auto simp: trim_def trimEnd_def)
  then have h: "\<not> isWhiteSpace (hd ?y)" unfolding trimStart_def by (metis hd_dropWhile)
  from False have "hd (trim x) = hd ?y" unfolding trim_def using h by (intro trimEnd_hd)
  moreover from False trimEnd_last [of ?y] have "\<not> isWhiteSpace (last (trim x))"
    by (simp add: trim_def)
  ultimately show ?thesis using h by simp
qed

lemma trim_fixed: "y = [] \<or> (\<not> isWhiteSpace (hd y) \<and> \<not> isWhiteSpace (last y)) \<Longrightarrow> trim y = y"
proof (cases "y = []")
  case True
  then show ?thesis by (simp add: trim_def trimStart_def trimEnd_def)
next
  case False
  assume "y = [] \<or> (\<not> isWhiteSpace (hd y) \<and> \<not> isWhiteSpace (last y))"
  with False have h: "\<not> isWhiteSpace (hd y)" and l: "\<not> isWhiteSpace (last y)" by simp_all
  have 1: "trimStart y = y" unfolding trimStart_def using h by (intro dropWhile_id) simp
  have "dropWhile isWhiteSpace (rev y) = rev y"
    using l False by (intro dropWhile_id) (simp add: hd_rev)
  then have "trimEnd y = y" by (simp add: trimEnd_def)
  with 1 show ?thesis by (simp add: trim_def)
qed

lemma trim_idem [simp]: "trim (trim x) = trim x"
  by (rule trim_fixed) (rule trim_props)




lemma populate_trace [simp]: "trace (populateFromCurrentNote s) = trace s"
  by (simp add: populateFromCurrentNote_def Let_def split: option.splits)















lemma finish_elements [simp]:
  "polishedNoteEl (getTranscription_finish s) = polishedNoteEl s"
  "elaboratedNoteEl (getTranscription_finish s) = elaboratedNoteEl s"
  by (simp_all add: getTranscription_finish_def)


lemma elaborate_resume_serialise [simp]:
  "serialise (getElaboratedNote_resume marked r s) = serialise s"
  by (simp add: getElaboratedNote_resume_def Let_def split: outcome.splits option.splits)











section \<open>The title of a polished note\<close>

lemma trim_empty_iff: "(trim x = []) = (\<forall>c\<in>set x. isWhiteSpace c)"
proof -
  have "(trimEnd y = []) = (\<forall>c\<in>set y. isWhiteSpace c)" for y
    by (auto simp: trimEnd_def dropWhile_eq_Nil_conv)
  moreover have "(\<forall>c\<in>set (dropWhile isWhiteSpace x). isWhiteSpace c) = (\<forall>c\<in>set x. isWhiteSpace c)"
    by (induction x) auto
  ultimately show ?thesis by (simp add: trim_def trimStart_def)
qed

lemma trim_dropWhile: "trim (dropWhile isWhiteSpace r) = trim r"
  by (simp add: trim_def trimStart_def)

lemma heading_of_trimmed:
  assumes "trim l = l" and "startsWithHash l"
    and "dropWhile isHash l \<noteq> []" and "isWhiteSpace (hd (dropWhile isHash l))"
  shows "trim (replaceHeading l) = trim (dropWhile isHash l)"
    and "trim (dropWhile isHash l) \<noteq> []"
proof -
  let ?r = "dropWhile isHash l"
  from assms(2) obtain c cs where l: "l = c # cs" "isHash c"
    by (auto simp: startsWithHash_def split: list.splits)
  then have hs: "takeWhile isHash l \<noteq> []" by simp
  have ne: "l \<noteq> []" using l by simp
  from trim_props [of l] assms(1) ne have last: "\<not> isWhiteSpace (last l)" by simp
  from assms(3,4) obtain a as where "?r = a # as" "isWhiteSpace a" by (cases ?r) auto
  then have "takeWhile isWhiteSpace ?r \<noteq> []" by (simp only: takeWhile.simps) simp
  with hs have "replaceHeading l = dropWhile isWhiteSpace ?r"
    by (simp add: replaceHeading_def Let_def)
  then show "trim (replaceHeading l) = trim ?r" by (simp add: trim_dropWhile)
  from assms(3) have "last ?r = last l" by (metis last_appendR takeWhile_dropWhile_id)
  with last assms(3) have "\<exists>c\<in>set ?r. \<not> isWhiteSpace c" by (metis last_in_set)
  then show "trim ?r \<noteq> []" by (simp add: trim_empty_iff)
qed

lemma headingLoop_none: "find startsWithHash ls = None \<Longrightarrow> headingLoop ls = None"
  by (induction ls) (simp_all split: if_splits)

lemma headingLoop_find:
  assumes "\<forall>l\<in>set ls. trim l = l" and "find startsWithHash ls = Some l"
    and "dropWhile isHash l \<noteq> []" and "isWhiteSpace (hd (dropWhile isHash l))"
  shows "headingLoop ls = Some (trim (dropWhile isHash l))"
  using assms(1,2)
proof (induction ls)
  case Nil
  then show ?case by simp
next
  case (Cons k ks)
  show ?case
  proof (cases "startsWithHash k")
    case True
    with Cons.prems have k: "k = l" "trim l = l" "startsWithHash l" by simp_all
    from heading_of_trimmed [OF k(2,3) assms(3,4)] k True show ?thesis by (simp add: Let_def)
  next
    case False
    with Cons show ?thesis by simp
  qed
qed

lemma potentialTitle_Nil [simp]: "potentialTitle [] = []"
  by (simp add: potentialTitle_def trim_def trimStart_def trimEnd_def)

lemma fallbackLoop_find:
  "fallbackLoop ls = map_option (\<lambda>l. truncate60 (potentialTitle l))
                       (find (\<lambda>l. 3 < length (potentialTitle l)) ls)"
proof (induction ls)
  case Nil
  then show ?case by simp
next
  case (Cons l ls)
  then show ?case by (cases "l = []") (simp_all add: Let_def truncate60_def)
qed

lemma inferTitle_rule:
  assumes "titleRule t el = Some el'"
  shows "inferTitle t el = el'"
proof -
  let ?ls = "map trim (split_nl t)"
  have tr: "\<forall>l\<in>set ?ls. trim l = l" by simp
  show ?thesis
  proof (cases "find startsWithHash ?ls")
    case None
    from headingLoop_none [OF None] fallbackLoop_find [of ?ls] None assms
    show ?thesis
      by (auto simp add: inferTitle_def titleRule_def Let_def split: option.splits)
  next
    case (Some l)
    with assms have w: "dropWhile isHash l \<noteq> []" "isWhiteSpace (hd (dropWhile isHash l))"
      and e: "el' = el\<lparr>content := trim (dropWhile isHash l), placeholderActive := False\<rparr>"
      by (auto simp add: titleRule_def Let_def split: if_splits)
    from headingLoop_find [OF tr Some w] e show ?thesis
      by (simp add: inferTitle_def Let_def)
  qed
qed

lemmas title_defs = getPolishedNote_resume_def inferTitle_def startsWithHash_def isHash_def
  replaceHeading_def potentialTitle_def isLeadDecoration_def isTrailDecoration_def
  claimedTitle_def titleRule_def truncate60_def scheduleAutoSave_def
  setTimeout_def clearTimeout_def truthyHandle_def AUTO_SAVE_DELAY_def onInput_def updateElement_def
  freshBrowser_def Let_def js_or_def str_def trim_def trimStart_def trimEnd_def isWhiteSpace_def

text \<open>
  Claim C6, amended. After a polish call that returned a non-empty text, the title element
  is what the rule for the title makes of it, where the rule gives a title: when the first
  line that starts with a hash has white space after its hashes, the title is that line
  with the hashes and the white space removed; without a line that starts with a hash, the
  first line whose text, stripped of leading decoration and trailing emphasis marks, is
  longer than 3 gives the title, cut to 60 with three dots; without such a line a blank or
  placeholder title becomes the placeholder and any other title is left as it is. A first
  line \<^verbatim>\<open># My Title\<close> gives My Title, and a line \<^verbatim>\<open>- some note here\<close> after a line
  that does not qualify gives some note here.
\<close>

theorem title_from_polished:
  assumes "polishedText \<noteq> []" and "titleRule polishedText (editorTitle s) = Some el"
  shows "editorTitle (getPolishedNote_resume marked (Fulfilled (Some polishedText)) s) = el"
  using assms(1) inferTitle_rule [OF assms(2)]
  by (simp add: getPolishedNote_resume_def Let_def split: option.splits)

theorem title_from_polished_witness:
  "str ''# My Title'' @ 0x0A # str ''Body text'' \<noteq> []
   \<and> str ''Hi'' @ 0x0A # str ''- some note here'' \<noteq> []
   \<and> titleRule (str ''# My Title'' @ 0x0A # str ''Body text'') (editorTitle (constructor freshBrowser))
       = Some ((editorTitle (constructor freshBrowser))
                 \<lparr>content := str ''My Title'', placeholderActive := False\<rparr>)
   \<and> titleRule (str ''Hi'' @ 0x0A # str ''- some note here'') (editorTitle (constructor freshBrowser))
       = Some ((editorTitle (constructor freshBrowser))
                 \<lparr>content := str ''some note here'', placeholderActive := False\<rparr>)
   \<and> content (editorTitle (getPolishedNote_resume (\<lambda>x. x)
         (Fulfilled (Some (str ''# My Title'' @ 0x0A # str ''Body text''))) (constructor freshBrowser)))
       = str ''My Title''
   \<and> content (editorTitle (getPolishedNote_resume (\<lambda>x. x)
         (Fulfilled (Some (str ''Hi'' @ 0x0A # str ''- some note here''))) (constructor freshBrowser)))
       = str ''some note here''"
proof -
  have 1: "str ''# My Title'' @ 0x0A # str ''Body text'' \<noteq> []" by (simp add: str_def)
  have 2: "str ''Hi'' @ 0x0A # str ''- some note here'' \<noteq> []" by (simp add: str_def)
  have a: "titleRule (str ''# My Title'' @ 0x0A # str ''Body text'') el
             = Some (el\<lparr>content := str ''My Title'', placeholderActive := False\<rparr>)" for el
    by (simp add: title_defs)
  have b: "titleRule (str ''Hi'' @ 0x0A # str ''- some note here'') el
             = Some (el\<lparr>content := str ''some note here'', placeholderActive := False\<rparr>)" for el
    by (simp add: title_defs)
  from title_from_polished [OF 1 a] title_from_polished [OF 2 b] 1 2 a b
  show ?thesis by simp
qed

text \<open>
  Claim C6 as it is worded fails. For the polished text \<^verbatim>\<open>ab**\<close> the line does not
  qualify, since the trailing marks are taken off before the length is compared, and the
  title stays the placeholder. For \<^verbatim>\<open>ok\<close> with the title Groceries on the page no line
  qualifies and the title stays Groceries.
\<close>

theorem title_claim_counterexample:
  "content (editorTitle (getPolishedNote_resume (\<lambda>x. x) (Fulfilled (Some (str ''ab**'')))
       (constructor freshBrowser))) = str ''Untitled Note''
   \<and> content (claimedTitle (str ''ab**'') (editorTitle (constructor freshBrowser))) = str ''ab**''
   \<and> content (editorTitle (getPolishedNote_resume (\<lambda>x. x) (Fulfilled (Some (str ''ok'')))
       (onInput Title (str ''Groceries'') (constructor freshBrowser)))) = str ''Groceries''
   \<and> content (claimedTitle (str ''ok'')
       (editorTitle (onInput Title (str ''Groceries'') (constructor freshBrowser)))) = str ''Untitled Note''"
  unfolding constructor_fresh
  by (simp add: title_defs)

end
